theory Spec2Isabelle
  imports Complex_Main "HOL-Library.AList" "HOL-Library.Sublist"
begin

section \<open>The queue manager of the video generation API\<close>

text \<open>
  This theory embeds \<^verbatim>\<open>api/queue_manager.py\<close> (class \<^verbatim>\<open>QueueManager\<close>) and the
  scheduling loop \<^verbatim>\<open>process_queue\<close> of \<^verbatim>\<open>api/app.py\<close>.

  Request items are Python dicts that the queue, the processing dict, the completed dict
  and the lookup dict share by reference, so the model keeps them in an explicit store:
  a reference is a natural number, \<open>heap\<close> maps references to items, and every container
  holds references. Python dicts keep insertion order, so each dict is an association
  list handled with \<open>AList.update\<close> (overwrite in place or append) and \<open>AList.delete\<close>.

  Every reading of \<^verbatim>\<open>time.time()\<close> is a parameter of the operation that reads it.
  Timestamps are real numbers: the rounding of floating-point subtraction is not modelled.
  A raised exception is a result \<open>Inl e\<close>, returned together with the state as the
  statements before the raise left it.
\<close>

subsection \<open>Data\<close>

type_synonym ref = nat

text \<open>
  The keys of a request item: the ones \<^verbatim>\<open>generate_video\<close> writes into the dict literal
  and the ones the queue manager adds later. A key that is absent is \<open>None\<close>;
  \<open>result_url\<close> may be present with the value \<^verbatim>\<open>None\<close>, hence the double option.
\<close>

record item =
  request_id :: string
  image_path :: string
  audio_path :: string
  prompt :: "string option"
  timestamp :: string
  status :: string
  queued_at :: "real option"
  started_at :: "real option"
  completed_at :: "real option"
  failed_at :: "real option"
  result_url :: "string option option"
  error :: "string option"
  message :: "string option"
  last_updated :: "real option"

datatype py_error = TypeError | AttributeError

text \<open>
  \<^verbatim>\<open>_all_requests\<close> starts as a dict. Line 223 of \<^verbatim>\<open>remove_request\<close> rebinds it to a
  list comprehension over itself; the only list that can result is the empty one,
  \<open>RList\<close>.
\<close>

datatype registry = RDict "(string \<times> ref) list" | RList

text \<open>
  \<^verbatim>\<open>_queue\<close> starts as a \<^verbatim>\<open>deque\<close>; line 210 of \<^verbatim>\<open>remove_request\<close> rebinds it to a
  list, which has no \<^verbatim>\<open>popleft\<close>. \<open>queue_is_deque\<close> records which one it is.
\<close>

record state =
  max_queue_size :: int
  max_concurrent :: int
  queue :: "ref list"
  queue_is_deque :: bool
  processing :: "(string \<times> ref) list"
  completed :: "(string \<times> ref) list"
  all_requests :: registry
  heap :: "ref \<Rightarrow> item"
  next_ref :: ref

definition blank_item :: item where
  "blank_item = \<lparr>request_id = [], image_path = [], audio_path = [], prompt = None,
     timestamp = [], status = [], queued_at = None, started_at = None,
     completed_at = None, failed_at = None, result_url = None, error = None,
     message = None, last_updated = None\<rparr>"

definition init :: "int \<Rightarrow> int \<Rightarrow> state" where
  "init mq mc = \<lparr>max_queue_size = mq, max_concurrent = mc, queue = [],
     queue_is_deque = True, processing = [], completed = [], all_requests = RDict [],
     heap = (\<lambda>_. blank_item), next_ref = 0\<rparr>"

subsection \<open>Operations of \<^verbatim>\<open>QueueManager\<close>\<close>

text \<open>
  \<^verbatim>\<open>add_to_queue\<close>: the caller passes a dict it has just built; the model allocates a
  new reference for it. With \<^verbatim>\<open>_all_requests\<close> a list, the assignment of line 42
  raises after the append of line 41.
\<close>

definition add_to_queue :: "real \<Rightarrow> item \<Rightarrow> state \<Rightarrow> (py_error + bool) \<times> state" where
  "add_to_queue now request_item s =
     (if int (length (queue s)) \<ge> max_queue_size s then (Inr False, s)
      else
        let r = next_ref s;
            it = request_item\<lparr>queued_at := Some now, status := ''queued''\<rparr>;
            s1 = s\<lparr>heap := (heap s)(r := it), next_ref := Suc r, queue := queue s @ [r]\<rparr>
        in case all_requests s1 of
             RDict d \<Rightarrow>
               (Inr True, s1\<lparr>all_requests := RDict (AList.update (request_id it) r d)\<rparr>)
           | RList \<Rightarrow> (Inl TypeError, s1))"

definition get_next_item :: "state \<Rightarrow> (py_error + ref option) \<times> state" where
  "get_next_item s =
     (case queue s of
        [] \<Rightarrow> (Inr None, s)
      | r # rs \<Rightarrow>
          if queue_is_deque s then (Inr (Some r), s\<lparr>queue := rs\<rparr>)
          else (Inl AttributeError, s))"

definition start_processing :: "real \<Rightarrow> string \<Rightarrow> state \<Rightarrow> bool \<times> state" where
  "start_processing now rid s =
     (if int (length (processing s)) \<ge> max_concurrent s then (False, s)
      else case all_requests s of
             RList \<Rightarrow> (False, s)
           | RDict d \<Rightarrow>
               (case map_of d rid of
                  None \<Rightarrow> (False, s)
                | Some r \<Rightarrow>
                    (True,
                     s\<lparr>heap := (heap s)(r := (heap s r)\<lparr>status := ''processing'',
                                                        started_at := Some now\<rparr>),
                       processing := AList.update rid r (processing s)\<rparr>)))"

definition complete_request ::
  "real \<Rightarrow> string \<Rightarrow> string option \<Rightarrow> state \<Rightarrow> (py_error + unit) \<times> state" where
  "complete_request now rid url s =
     (case map_of (processing s) rid of
        None \<Rightarrow> (Inr (), s)
      | Some r \<Rightarrow>
          let s1 = s\<lparr>processing := AList.delete rid (processing s),
                     heap := (heap s)(r := (heap s r)\<lparr>status := ''completed'',
                                                      completed_at := Some now,
                                                      result_url := Some url\<rparr>),
                     completed := AList.update rid r (completed s)\<rparr>
          in case all_requests s1 of
               RDict d \<Rightarrow> (Inr (), s1\<lparr>all_requests := RDict (AList.update rid r d)\<rparr>)
             | RList \<Rightarrow> (Inl TypeError, s1))"

definition fail_request ::
  "real \<Rightarrow> string \<Rightarrow> string \<Rightarrow> state \<Rightarrow> (py_error + unit) \<times> state" where
  "fail_request now rid error_message s =
     (case map_of (processing s) rid of
        None \<Rightarrow> (Inr (), s)
      | Some r \<Rightarrow>
          let s1 = s\<lparr>processing := AList.delete rid (processing s),
                     heap := (heap s)(r := (heap s r)\<lparr>status := ''failed'',
                                                      error := Some error_message,
                                                      failed_at := Some now\<rparr>),
                     completed := AList.update rid r (completed s)\<rparr>
          in case all_requests s1 of
               RDict d \<Rightarrow> (Inr (), s1\<lparr>all_requests := RDict (AList.update rid r d)\<rparr>)
             | RList \<Rightarrow> (Inl TypeError, s1))"

text \<open>
  \<^verbatim>\<open>update_request_status\<close> reads the clock twice: once for the item found in
  \<^verbatim>\<open>_all_requests\<close>, once for the item found in \<^verbatim>\<open>_processing\<close>.
\<close>

definition update_request_status ::
  "real \<Rightarrow> real \<Rightarrow> string \<Rightarrow> string \<Rightarrow> string \<Rightarrow> state \<Rightarrow> state" where
  "update_request_status t1 t2 rid st msg s =
     (case all_requests s of
        RList \<Rightarrow> s
      | RDict d \<Rightarrow>
          (case map_of d rid of
             None \<Rightarrow> s
           | Some r \<Rightarrow>
               let h1 = (heap s)(r := (heap s r)\<lparr>status := st, message := Some msg,
                                                 last_updated := Some t1\<rparr>)
               in case map_of (processing s) rid of
                    None \<Rightarrow> s\<lparr>heap := h1\<rparr>
                  | Some p \<Rightarrow>
                      s\<lparr>heap := h1(p := (h1 p)\<lparr>status := st, message := Some msg,
                                                last_updated := Some t2\<rparr>)\<rparr>))"

definition get_request_status :: "state \<Rightarrow> string \<Rightarrow> py_error + item option" where
  "get_request_status s rid =
     (case all_requests s of
        RList \<Rightarrow> Inl AttributeError
      | RDict d \<Rightarrow> Inr (map_option (heap s) (map_of d rid)))"

definition get_queue_size :: "state \<Rightarrow> nat" where
  "get_queue_size s = length (queue s)"

definition get_processing_count :: "state \<Rightarrow> nat" where
  "get_processing_count s = length (processing s)"

definition can_start_processing :: "state \<Rightarrow> bool" where
  "can_start_processing s =
     (int (length (processing s)) < max_concurrent s \<and> length (queue s) > 0)"

text \<open>The \<^verbatim>\<open>enumerate\<close> loop of \<^verbatim>\<open>get_queue_position\<close>, started at index \<open>i\<close>.\<close>

fun position_loop :: "(ref \<Rightarrow> item) \<Rightarrow> string \<Rightarrow> nat \<Rightarrow> ref list \<Rightarrow> nat option" where
  "position_loop h rid i [] = None"
| "position_loop h rid i (r # rs) =
     (if request_id (h r) = rid then Some (i + 1) else position_loop h rid (Suc i) rs)"

definition get_queue_position :: "state \<Rightarrow> string \<Rightarrow> nat option" where
  "get_queue_position s rid = position_loop (heap s) rid 0 (queue s)"

text \<open>
  \<^verbatim>\<open>cleanup_old_requests\<close>. \<open>finish_time\<close> is the expression
  \<^verbatim>\<open>item.get("completed_at") or item.get("failed_at", 0)\<close>: a missing or zero
  \<^verbatim>\<open>completed_at\<close> is falsy. \<open>cleanup_remove\<close> is the second loop; on a list
  \<^verbatim>\<open>_all_requests.pop(request_id, None)\<close> raises.
\<close>

definition finish_time :: "item \<Rightarrow> real" where
  "finish_time it =
     (let failed_or_zero = (case failed_at it of Some f \<Rightarrow> f | None \<Rightarrow> 0)
      in case completed_at it of
           Some t \<Rightarrow> if t \<noteq> 0 then t else failed_or_zero
         | None \<Rightarrow> failed_or_zero)"

fun cleanup_remove :: "string list \<Rightarrow> state \<Rightarrow> (py_error + unit) \<times> state" where
  "cleanup_remove [] s = (Inr (), s)"
| "cleanup_remove (rid # rids) s =
     (let s1 = s\<lparr>completed := AList.delete rid (completed s)\<rparr>
      in case all_requests s1 of
           RDict d \<Rightarrow> cleanup_remove rids (s1\<lparr>all_requests := RDict (AList.delete rid d)\<rparr>)
         | RList \<Rightarrow> (Inl TypeError, s1))"

definition to_remove :: "real \<Rightarrow> state \<Rightarrow> string list" where
  "to_remove cutoff_time s =
     map fst (filter (\<lambda>(rid, r). finish_time (heap s r) < cutoff_time) (completed s))"

definition cleanup_old_requests :: "real \<Rightarrow> int \<Rightarrow> state \<Rightarrow> (py_error + unit) \<times> state" where
  "cleanup_old_requests current_time max_age_hours s =
     (let cutoff_time = current_time - of_int (max_age_hours * 3600)
      in cleanup_remove (to_remove cutoff_time s) s)"

text \<open>
  \<^verbatim>\<open>remove_request\<close>. Line 223 iterates over \<^verbatim>\<open>_all_requests\<close>; iterating a dict
  yields its keys, and subscripting a key (a string) with \<^verbatim>\<open>"request_id"\<close> raises
  \<^verbatim>\<open>TypeError\<close>. So the line raises as soon as the dict has one key, and rebinds
  \<^verbatim>\<open>_all_requests\<close> to the empty list otherwise.
\<close>

definition remove_request :: "string \<Rightarrow> state \<Rightarrow> (py_error + bool) \<times> state" where
  "remove_request rid s =
     (let removed = False;
          s1 = s\<lparr>queue := filter (\<lambda>r. request_id (heap s r) \<noteq> rid) (queue s),
                 queue_is_deque := False\<rparr>;
          (removed, s2) =
            (if map_of (processing s1) rid \<noteq> None
             then (True, s1\<lparr>processing := AList.delete rid (processing s1)\<rparr>)
             else (removed, s1));
          (removed, s3) =
            (if map_of (completed s2) rid \<noteq> None
             then (True, s2\<lparr>completed := AList.delete rid (completed s2)\<rparr>)
             else (removed, s2))
      in case all_requests s3 of
           RDict [] \<Rightarrow> (Inr removed, s3\<lparr>all_requests := RList\<rparr>)
         | RDict (kv # kvs) \<Rightarrow> (Inl TypeError, s3)
         | RList \<Rightarrow> (Inr removed, s3))"

text \<open>
  \<^verbatim>\<open>get_estimated_wait_time\<close>. The average is \<^verbatim>\<open>3.5 * 60\<close>, the float 210.0, and the
  estimate is \<open>position * 210\<close>, an integer that a float holds exactly; \<^verbatim>\<open>int(x / 60)\<close>
  and \<^verbatim>\<open>int(x / 3600)\<close> of such a value are the integer quotients. \<open>str_nat\<close> is
  Python's decimal \<^verbatim>\<open>str\<close> of a natural number.
\<close>

definition digit_char :: "nat \<Rightarrow> char" where
  "digit_char d = ''0123456789'' ! d"

function str_nat :: "nat \<Rightarrow> string" where
  "str_nat n = (if n < 10 then [digit_char n] else str_nat (n div 10) @ [digit_char (n mod 10)])"
  by pat_completeness auto
termination
  by (relation "measure id") auto

definition get_estimated_wait_time :: "state \<Rightarrow> string \<Rightarrow> string option" where
  "get_estimated_wait_time s rid =
     (case get_queue_position s rid of
        None \<Rightarrow> None
      | Some position \<Rightarrow>
          let avg_processing_time = 210;
              estimated_seconds = position * avg_processing_time
          in if estimated_seconds < 60
             then Some (str_nat estimated_seconds @ '' seconds'')
             else if estimated_seconds < 3600
             then Some (str_nat (estimated_seconds div 60) @ '' minutes'')
             else
               let hours = estimated_seconds div 3600;
                   minutes = (estimated_seconds mod 3600) div 60
               in Some (str_nat hours @ ''h '' @ str_nat minutes @ ''m''))"

subsection \<open>The scheduling loop \<^verbatim>\<open>process_queue\<close> of \<^verbatim>\<open>app.py\<close>\<close>

text \<open>
  One pass of the \<^verbatim>\<open>while\<close> loop, run without interleaving. \<open>clk k\<close> is the clock
  reading of the \<open>k\<close>-th iteration. The result of \<^verbatim>\<open>start_processing\<close> is ignored, as
  in the source, and \<^verbatim>\<open>process_video\<close> is launched for every item taken from the queue:
  the second component of the result lists the launched items in order.
\<close>

function process_queue ::
  "(nat \<Rightarrow> real) \<Rightarrow> nat \<Rightarrow> state \<Rightarrow> (py_error + unit) \<times> ref list \<times> state" where
  "process_queue clk k s =
     (if can_start_processing s then
        (case get_next_item s of
           (Inl e, s1) \<Rightarrow> (Inl e, [], s1)
         | (Inr None, s1) \<Rightarrow> process_queue clk (Suc k) s1
         | (Inr (Some r), s1) \<Rightarrow>
             (case process_queue clk (Suc k)
                     (snd (start_processing (clk k) (request_id (heap s1 r)) s1)) of
                (res, launched, s3) \<Rightarrow> (res, r # launched, s3)))
      else (Inr (), [], s))"
  by pat_completeness auto
termination
proof (relation "measure (\<lambda>(clk, k, s). length (queue s))")
  show "wf (measure (\<lambda>(clk, k, s). length (queue s)))" by simp
next
  fix clk :: "nat \<Rightarrow> real" and k s x1 s1 x2
  assume "can_start_processing s" "(x1, s1) = get_next_item s" "x1 = Inr x2" "x2 = None"
  then show "((clk, Suc k, s1), (clk, k, s)) \<in> measure (\<lambda>(clk, k, s). length (queue s))"
    by (auto simp: can_start_processing_def get_next_item_def split: list.splits if_splits)
next
  fix clk :: "nat \<Rightarrow> real" and k s x1 s1 x2 r
  assume "can_start_processing s" "(x1, s1) = get_next_item s" "x1 = Inr x2" "x2 = Some r"
  then show "((clk, Suc k, snd (start_processing (clk k) (request_id (heap s1 r)) s1)),
              (clk, k, s)) \<in> measure (\<lambda>(clk, k, s). length (queue s))"
    by (auto simp: can_start_processing_def get_next_item_def start_processing_def
             split: list.splits if_splits registry.splits option.splits)
qed

subsection \<open>Histories of calls\<close>

text \<open>
  A call of the manager, with its arguments and the clock readings it consumes.
  \<open>step\<close> performs the call and keeps the state it leaves behind, also when the call
  raises: the manager object lives on after a handler has caught the exception.
\<close>

datatype event =
    Add real item
  | Next
  | Start real string
  | Complete real string "string option"
  | Fail real string string
  | Update real real string string string
  | Cleanup real int
  | Remove string
  | ProcessQueue "nat \<Rightarrow> real"

fun step :: "event \<Rightarrow> state \<Rightarrow> state" where
  "step (Add now it) s = snd (add_to_queue now it s)"
| "step Next s = snd (get_next_item s)"
| "step (Start now rid) s = snd (start_processing now rid s)"
| "step (Complete now rid url) s = snd (complete_request now rid url s)"
| "step (Fail now rid msg) s = snd (fail_request now rid msg s)"
| "step (Update t1 t2 rid st msg) s = update_request_status t1 t2 rid st msg s"
| "step (Cleanup now h) s = snd (cleanup_old_requests now h s)"
| "step (Remove rid) s = snd (remove_request rid s)"
| "step (ProcessQueue clk) s = snd (snd (process_queue clk 0 s))"

fun run :: "event list \<Rightarrow> state \<Rightarrow> state" where
  "run [] s = s"
| "run (e # es) s = run es (step e s)"

text \<open>The identifiers passed to \<^verbatim>\<open>add_to_queue\<close>, in the order of the calls.\<close>

fun submitted :: "event list \<Rightarrow> string list" where
  "submitted [] = []"
| "submitted (Add now it # es) = request_id it # submitted es"
| "submitted (e # es) = submitted es"

definition queue_ids :: "state \<Rightarrow> string list" where
  "queue_ids s = map (\<lambda>r. request_id (heap s r)) (queue s)"

definition queue_entries :: "state \<Rightarrow> (string \<times> ref) list" where
  "queue_entries s = map (\<lambda>r. (request_id (heap s r), r)) (queue s)"

definition reg :: "state \<Rightarrow> (string \<times> ref) list" where
  "reg s = (case all_requests s of RDict d \<Rightarrow> d | RList \<Rightarrow> [])"

text \<open>The registry record of an identifier: the item \<^verbatim>\<open>_all_requests\<close> maps it to.\<close>

definition record_of :: "state \<Rightarrow> string \<Rightarrow> item option" where
  "record_of s rid = map_option (heap s) (map_of (reg s) rid)"

definition ids_in_use :: "state \<Rightarrow> string list" where
  "ids_in_use s =
     queue_ids s @ map fst (processing s) @ map fst (completed s) @ map fst (reg s)"

text \<open>
  The calls as \<^verbatim>\<open>app.py\<close> makes them. \<^verbatim>\<open>generate_video\<close> submits a dict literal under a
  new \<^verbatim>\<open>uuid4\<close> identifier, without the keys the manager writes at the end of a job;
  promotion happens only inside \<^verbatim>\<open>process_queue\<close>; \<^verbatim>\<open>process_video\<close> calls
  \<^verbatim>\<open>update_request_status\<close> with the status the record already has
  (\<^verbatim>\<open>"processing"\<close>), so that only the message changes. \<^verbatim>\<open>remove_request\<close> is left out
  of these histories.
\<close>

fun allowed :: "event \<Rightarrow> state \<Rightarrow> bool" where
  "allowed (Add now it) s =
     (request_id it \<notin> set (ids_in_use s) \<and> completed_at it = None \<and> failed_at it = None)"
| "allowed (Update t1 t2 rid st msg) s =
     (case record_of s rid of None \<Rightarrow> True | Some it \<Rightarrow> status it = st)"
| "allowed (Complete now rid url) s = True"
| "allowed (Fail now rid msg) s = True"
| "allowed (Cleanup now h) s = True"
| "allowed (ProcessQueue clk) s = True"
| "allowed Next s = False"
| "allowed (Start now rid) s = False"
| "allowed (Remove rid) s = False"

fun proto :: "event list \<Rightarrow> state \<Rightarrow> bool" where
  "proto [] s = True"
| "proto (e # es) s = (allowed e s \<and> proto es (step e s))"

text \<open>
  The consistency of the four containers that these histories maintain: the lookup dict
  holds exactly the entries of the queue, the processing dict and the completed dict,
  which share no identifier, and the status of an item says where it is.
\<close>

definition queued_cell :: "item \<Rightarrow> bool" where
  "queued_cell it \<longleftrightarrow>
     status it = ''queued'' \<and> completed_at it = None \<and> failed_at it = None"

definition running_cell :: "item \<Rightarrow> bool" where
  "running_cell it \<longleftrightarrow>
     status it = ''processing'' \<and> completed_at it = None \<and> failed_at it = None"

definition terminal_cell :: "item \<Rightarrow> bool" where
  "terminal_cell it \<longleftrightarrow>
     (status it = ''completed'' \<and> completed_at it \<noteq> None \<and> failed_at it = None) \<or>
     (status it = ''failed'' \<and> failed_at it \<noteq> None \<and> completed_at it = None)"

definition wf_kinds :: "state \<Rightarrow> bool" where
  "wf_kinds s \<longleftrightarrow> (\<exists>d. all_requests s = RDict d) \<and> queue_is_deque s"

definition wf_keys :: "state \<Rightarrow> bool" where
  "wf_keys s \<longleftrightarrow>
     distinct (queue_ids s) \<and> distinct (map fst (processing s)) \<and>
     distinct (map fst (completed s)) \<and> distinct (map fst (reg s)) \<and>
     set (queue_ids s) \<inter> fst ` set (processing s) = {} \<and>
     set (queue_ids s) \<inter> fst ` set (completed s) = {} \<and>
     fst ` set (processing s) \<inter> fst ` set (completed s) = {}"

definition wf_reg :: "state \<Rightarrow> bool" where
  "wf_reg s \<longleftrightarrow>
     set (reg s) = set (queue_entries s) \<union> set (processing s) \<union> set (completed s) \<and>
     (\<forall>k r. (k, r) \<in> set (reg s) \<longrightarrow> request_id (heap s r) = k \<and> r < next_ref s)"

definition wf_cells :: "state \<Rightarrow> bool" where
  "wf_cells s \<longleftrightarrow>
     (\<forall>r. r \<in> set (queue s) \<longrightarrow> queued_cell (heap s r)) \<and>
     (\<forall>k r. (k, r) \<in> set (processing s) \<longrightarrow> running_cell (heap s r)) \<and>
     (\<forall>k r. (k, r) \<in> set (completed s) \<longrightarrow> terminal_cell (heap s r))"

definition wf_state :: "state \<Rightarrow> bool" where
  "wf_state s \<longleftrightarrow> wf_kinds s \<and> wf_keys s \<and> wf_reg s \<and> wf_cells s"

text \<open>
  The order of the life cycle: \<open>forward a b\<close> holds when status \<open>b\<close> is status \<open>a\<close> or
  comes after it along queued, processing, completed or failed.
\<close>

definition forward :: "string \<Rightarrow> string \<Rightarrow> bool" where
  "forward a b \<longleftrightarrow>
     a = b \<or>
     (a = ''queued'' \<and> (b = ''processing'' \<or> b = ''completed'' \<or> b = ''failed'')) \<or>
     (a = ''processing'' \<and> (b = ''completed'' \<or> b = ''failed''))"

text \<open>
  The finish timestamp of a terminal record, as the data model of the specification has
  it: set by the transition that ended the job, absent before.
\<close>

definition finished_at :: "item \<Rightarrow> real option" where
  "finished_at it =
     (if status it = ''completed'' then completed_at it
      else if status it = ''failed'' then failed_at it
      else None)"

text \<open>
  The wait estimate in the words of the specification: the position times the average
  job duration, put into one of three buckets, and the text of each bucket.
\<close>

datatype wait = Seconds nat | Minutes nat | HoursMinutes nat nat

definition bucket :: "nat \<Rightarrow> wait" where
  "bucket secs =
     (if secs < 60 then Seconds secs
      else if secs < 3600 then Minutes (secs div 60)
      else HoursMinutes (secs div 3600) (secs mod 3600 div 60))"

fun render :: "wait \<Rightarrow> string" where
  "render (Seconds n) = str_nat n @ '' seconds''"
| "render (Minutes n) = str_nat n @ '' minutes''"
| "render (HoursMinutes h m) = str_nat h @ ''h '' @ str_nat m @ ''m''"

definition average_job_duration :: nat where
  "average_job_duration = 210"

text \<open>
  What every call other than \<^verbatim>\<open>add_to_queue\<close> does to the queue and the running set:
  the limits, the allocated references and the identifier of every item stay as they
  are, the queue loses entries but keeps their order, and the running set stays within
  its limit.
\<close>

definition shrinks :: "state \<Rightarrow> state \<Rightarrow> bool" where
  "shrinks s s' \<longleftrightarrow>
     max_queue_size s' = max_queue_size s \<and> max_concurrent s' = max_concurrent s \<and>
     next_ref s' = next_ref s \<and>
     (\<forall>r. request_id (heap s' r) = request_id (heap s r)) \<and>
     subseq (queue s') (queue s) \<and>
     (int (length (processing s)) \<le> max_concurrent s \<longrightarrow>
        int (length (processing s')) \<le> max_concurrent s') \<and>
     (distinct (map fst (processing s)) \<longrightarrow> distinct (map fst (processing s')))"

definition queue_refs_ok :: "state \<Rightarrow> bool" where
  "queue_refs_ok s \<longleftrightarrow> (\<forall>r \<in> set (queue s). r < next_ref s)"

text \<open>\<open>precedes a b xs\<close>: \<open>b\<close> occurs in \<open>xs\<close> after the first occurrence of \<open>a\<close>.\<close>

definition precedes :: "'a \<Rightarrow> 'a \<Rightarrow> 'a list \<Rightarrow> bool" where
  "precedes a b xs \<longleftrightarrow> b \<in> set (tl (dropWhile (\<lambda>x. x \<noteq> a) xs))"

text \<open>The limit of the queue holds; the limit of the running set holds.\<close>

definition within_limit :: "state \<Rightarrow> bool" where
  "within_limit s \<longleftrightarrow> int (length (queue s)) \<le> max_queue_size s"

definition gated :: "state \<Rightarrow> bool" where
  "gated s \<longleftrightarrow> int (length (processing s)) \<le> max_concurrent s \<and>
     distinct (map fst (processing s))"

text \<open>
  \<open>no_finish rid es\<close>: the history \<open>es\<close> reports no outcome for \<open>rid\<close>.
  \<open>same_job a b\<close>: two items carry the same submission.
\<close>

fun no_finish :: "string \<Rightarrow> event list \<Rightarrow> bool" where
  "no_finish rid [] = True"
| "no_finish rid (Complete now rid' url # es) = (rid' \<noteq> rid \<and> no_finish rid es)"
| "no_finish rid (Fail now rid' msg # es) = (rid' \<noteq> rid \<and> no_finish rid es)"
| "no_finish rid (e # es) = no_finish rid es"

definition same_job :: "item \<Rightarrow> item \<Rightarrow> bool" where
  "same_job a b \<longleftrightarrow>
     request_id a = request_id b \<and> image_path a = image_path b \<and>
     audio_path a = audio_path b \<and> prompt a = prompt b \<and> timestamp a = timestamp b"

text \<open>
  What a pass of \<open>process_queue\<close> does to a consistent state: it returns normally, keeps
  the state consistent, moves statuses forward, and every queue entry either stays in
  the queue or is now in the running set.
\<close>

definition pass_ok :: "state \<Rightarrow> state \<Rightarrow> bool" where
  "pass_ok s s' \<longleftrightarrow>
     wf_state s' \<and> next_ref s' = next_ref s \<and> all_requests s' = all_requests s \<and>
     completed s' = completed s \<and> set (processing s) \<subseteq> set (processing s') \<and>
     (\<forall>x. forward (status (heap s x)) (status (heap s' x)) \<and> same_job (heap s' x) (heap s x) \<and>
          queued_at (heap s' x) = queued_at (heap s x)) \<and>
     (\<forall>x. x \<in> set (queue s) \<longrightarrow>
          x \<in> set (queue s') \<or> (request_id (heap s x), x) \<in> set (processing s'))"

subsection \<open>Sample inputs\<close>

definition sample_item :: "string \<Rightarrow> item" where
  "sample_item rid = blank_item\<lparr>request_id := rid\<rparr>"

definition one_queued :: state where
  "one_queued = run [Add 1 (sample_item ''a'')] (init 20 3)"

definition one_running :: state where
  "one_running = run [Add 1 (sample_item ''a''), ProcessQueue (\<lambda>_. 2)] (init 20 3)"

definition two_queued :: state where
  "two_queued = run [Add 1 (sample_item ''a''), Add 2 (sample_item ''b'')] (init 2 1)"

declare process_queue.simps [simp del]
declare str_nat.simps [simp del]

lemmas op_defs = add_to_queue_def get_next_item_def start_processing_def
  complete_request_def fail_request_def update_request_status_def remove_request_def
  cleanup_old_requests_def to_remove_def finish_time_def can_start_processing_def
  init_def sample_item_def blank_item_def Let_def

section \<open>Position in the queue and wait estimate\<close>

lemma position_loop_None:
  "position_loop h rid i rs = None \<longleftrightarrow> rid \<notin> set (map (\<lambda>r. request_id (h r)) rs)"
  by (induction rs arbitrary: i) auto

lemma position_loop_Some:
  "position_loop h rid i rs = Some p \<longleftrightarrow>
     (\<exists>j < length rs. p = i + j + 1 \<and> map (\<lambda>r. request_id (h r)) rs ! j = rid \<and>
        rid \<notin> set (take j (map (\<lambda>r. request_id (h r)) rs)))"
proof (induction rs arbitrary: i)
  case Nil
  then show ?case by simp
next
  case (Cons r rs)
  let ?ids = "map (\<lambda>r. request_id (h r)) rs"
  show ?case
  proof (cases "request_id (h r) = rid")
    case True
    have "(\<exists>j < length (r # rs). p = i + j + 1 \<and> (request_id (h r) # ?ids) ! j = rid \<and>
        rid \<notin> set (take j (request_id (h r) # ?ids))) \<longleftrightarrow> p = i + 1"
    proof
      assume "\<exists>j < length (r # rs). p = i + j + 1 \<and> (request_id (h r) # ?ids) ! j = rid \<and>
        rid \<notin> set (take j (request_id (h r) # ?ids))"
      then obtain j where j: "p = i + j + 1" "rid \<notin> set (take j (request_id (h r) # ?ids))"
        by blast
      from j(2) True have "j = 0" by (cases j) auto
      with j(1) show "p = i + 1" by simp
    next
      assume "p = i + 1"
      with True show "\<exists>j < length (r # rs). p = i + j + 1 \<and>
        (request_id (h r) # ?ids) ! j = rid \<and> rid \<notin> set (take j (request_id (h r) # ?ids))"
        by (intro exI[of _ 0]) simp
    qed
    with True show ?thesis by auto
  next
    case False
    have "(\<exists>j < length (r # rs). p = i + j + 1 \<and> (request_id (h r) # ?ids) ! j = rid \<and>
        rid \<notin> set (take j (request_id (h r) # ?ids))) \<longleftrightarrow>
      (\<exists>j < length rs. p = Suc i + j + 1 \<and> ?ids ! j = rid \<and> rid \<notin> set (take j ?ids))"
      (is "?L \<longleftrightarrow> ?R")
    proof
      assume ?L
      then obtain j where j: "j < length (r # rs)" "p = i + j + 1"
        "(request_id (h r) # ?ids) ! j = rid" "rid \<notin> set (take j (request_id (h r) # ?ids))"
        by blast
      from j(3) False obtain j' where j': "j = Suc j'" by (cases j) auto
      with j show ?R by (intro exI[of _ j']) auto
    next
      assume ?R
      then obtain j where j: "j < length rs" "p = Suc i + j + 1" "?ids ! j = rid"
        "rid \<notin> set (take j ?ids)" by blast
      with False show ?L by (intro exI[of _ "Suc j"]) auto
    qed
    with False Cons.IH[of "Suc i"] show ?thesis by simp
  qed
qed

lemma queue_position_Some:
  "get_queue_position s rid = Some p \<longleftrightarrow>
      1 \<le> p \<and> p \<le> length (queue_ids s) \<and> queue_ids s ! (p - 1) = rid \<and>
      rid \<notin> set (take (p - 1) (queue_ids s))"
proof -
  have "(\<exists>j < length (queue s). p = 0 + j + 1 \<and> queue_ids s ! j = rid \<and>
      rid \<notin> set (take j (queue_ids s))) \<longleftrightarrow>
    (1 \<le> p \<and> p \<le> length (queue_ids s) \<and> queue_ids s ! (p - 1) = rid \<and>
      rid \<notin> set (take (p - 1) (queue_ids s)))" (is "?L \<longleftrightarrow> ?R")
  proof
    assume ?L
    then show ?R by (auto simp: queue_ids_def)
  next
    assume ?R
    then show ?L by (intro exI[of _ "p - 1"]) (auto simp: queue_ids_def)
  qed
  then show ?thesis
    unfolding get_queue_position_def position_loop_Some by (simp add: queue_ids_def)
qed

text \<open>
  C10. \<^verbatim>\<open>get_queue_position\<close> returns the 1-based index of the first queue entry that
  carries the identifier and nothing when no entry carries it.
  \<^verbatim>\<open>get_estimated_wait_time\<close> returns nothing exactly then, and otherwise the position
  times the average job duration, rendered in the bucket of the specification: seconds
  below 60, whole minutes below 3600, hours and remaining minutes from there on.
\<close>

theorem position_and_wait_estimate:
  "(get_queue_position s rid = None \<longleftrightarrow> rid \<notin> set (queue_ids s)) \<and>
   (get_queue_position s rid = Some p \<longleftrightarrow>
      1 \<le> p \<and> p \<le> length (queue_ids s) \<and> queue_ids s ! (p - 1) = rid \<and>
      rid \<notin> set (take (p - 1) (queue_ids s))) \<and>
   get_estimated_wait_time s rid =
     map_option (\<lambda>n. render (bucket (n * average_job_duration))) (get_queue_position s rid)"
proof -
  have a: "get_queue_position s rid = None \<longleftrightarrow> rid \<notin> set (queue_ids s)"
    unfolding get_queue_position_def queue_ids_def by (rule position_loop_None)
  have b: "get_queue_position s rid = Some p \<longleftrightarrow>
      1 \<le> p \<and> p \<le> length (queue_ids s) \<and> queue_ids s ! (p - 1) = rid \<and>
      rid \<notin> set (take (p - 1) (queue_ids s))"
    by (rule queue_position_Some)
  have c: "get_estimated_wait_time s rid =
     map_option (\<lambda>n. render (bucket (n * average_job_duration))) (get_queue_position s rid)"
    by (simp add: get_estimated_wait_time_def bucket_def average_job_duration_def Let_def
             split: option.splits)
  from a b c show ?thesis by blast
qed

theorem position_and_wait_estimate_witness:
  "get_queue_position two_queued ''b'' = Some 2 \<and>
   get_queue_position two_queued ''c'' = None \<and>
   get_estimated_wait_time two_queued ''b'' = Some ''7 minutes'' \<and>
   get_estimated_wait_time two_queued ''c'' = None"
  using position_and_wait_estimate [of two_queued "''b''" 2]
    position_and_wait_estimate [of two_queued "''c''" 0]
  by (simp add: two_queued_def op_defs queue_ids_def bucket_def average_job_duration_def
        str_nat.simps digit_char_def)

section \<open>The scheduling pass\<close>

lemma process_queue_again:
  "process_queue clk' k' (snd (snd (process_queue clk k s))) =
     (fst (process_queue clk k s), [], snd (snd (process_queue clk k s)))"
proof (induction clk k s rule: process_queue.induct)
  case (1 clk k s)
  show ?case
  proof (cases "can_start_processing s")
    case False
    then show ?thesis by (simp add: process_queue.simps)
  next
    case True
    then obtain r rs where q: "queue s = r # rs"
      by (cases "queue s") (auto simp: can_start_processing_def)
    show ?thesis
    proof (cases "queue_is_deque s")
      case False
      with True q show ?thesis by (simp add: process_queue.simps get_next_item_def)
    next
      case d: True
      have g: "get_next_item s = (Inr (Some r), s\<lparr>queue := rs\<rparr>)"
        using q d by (simp add: get_next_item_def)
      have "process_queue clk' k' (snd (snd (process_queue clk (Suc k)
               (snd (start_processing (clk k) (request_id (heap (s\<lparr>queue := rs\<rparr>) r)) (s\<lparr>queue := rs\<rparr>)))))) =
            (fst (process_queue clk (Suc k) (snd (start_processing (clk k) (request_id (heap (s\<lparr>queue := rs\<rparr>) r)) (s\<lparr>queue := rs\<rparr>)))), [],
             snd (snd (process_queue clk (Suc k) (snd (start_processing (clk k) (request_id (heap (s\<lparr>queue := rs\<rparr>) r)) (s\<lparr>queue := rs\<rparr>))))))"
        using "1.IH"(2)[OF True g[symmetric] refl refl] .
      then show ?thesis
        using True g by (auto simp: process_queue.simps[of clk k s] split: prod.splits)
    qed
  qed
qed


lemma process_queue_stops:
  "fst (process_queue clk k s) = Inr () \<Longrightarrow>
     \<not> can_start_processing (snd (snd (process_queue clk k s)))"
proof (induction clk k s rule: process_queue.induct)
  case (1 clk k s)
  show ?case
  proof (cases "can_start_processing s")
    case False
    then show ?thesis by (simp add: process_queue.simps)
  next
    case True
    then obtain r rs where q: "queue s = r # rs"
      by (cases "queue s") (auto simp: can_start_processing_def)
    show ?thesis
    proof (cases "queue_is_deque s")
      case False
      with True q "1.prems" show ?thesis
        by (simp add: process_queue.simps[of clk k s] get_next_item_def)
    next
      case d: True
      have g: "get_next_item s = (Inr (Some r), s\<lparr>queue := rs\<rparr>)"
        using q d by (simp add: get_next_item_def)
      show ?thesis
        using "1.IH"(2)[OF True g[symmetric] refl refl] "1.prems" True g
        by (auto simp: process_queue.simps[of clk k s] split: prod.splits)
    qed
  qed
qed

text \<open>
  C9. The scheduling pass is idempotent. The loop of \<^verbatim>\<open>process_queue\<close> always ends;
  a second pass on the state the first one left launches nothing and changes nothing,
  and after a pass that returned normally \<^verbatim>\<open>can_start_processing\<close> is false: no slot
  is free or the queue is empty.
\<close>

theorem process_queue_idempotent:
  "process_queue clk' k' (snd (snd (process_queue clk k s))) =
     (fst (process_queue clk k s), [], snd (snd (process_queue clk k s))) \<and>
   (fst (process_queue clk k s) = Inr () \<longrightarrow>
      \<not> can_start_processing (snd (snd (process_queue clk k s))))"
  using process_queue_again [of clk' k' clk k s] process_queue_stops [of clk k s]
  by blast

theorem process_queue_idempotent_witness:
  "fst (process_queue (\<lambda>_. 3) 0 two_queued) = Inr () \<and>
   fst (snd (process_queue (\<lambda>_. 3) 0 two_queued)) = [0] \<and>
   fst (snd (process_queue (\<lambda>_. 4) 0 (snd (snd (process_queue (\<lambda>_. 3) 0 two_queued))))) = [] \<and>
   snd (snd (process_queue (\<lambda>_. 4) 0 (snd (snd (process_queue (\<lambda>_. 3) 0 two_queued))))) =
     snd (snd (process_queue (\<lambda>_. 3) 0 two_queued)) \<and>
   \<not> can_start_processing (snd (snd (process_queue (\<lambda>_. 3) 0 two_queued)))"
proof -
  have a: "fst (process_queue (\<lambda>_. 3) 0 two_queued) = Inr ()"
    by (simp add: two_queued_def op_defs process_queue.simps)
  have b: "fst (snd (process_queue (\<lambda>_. 3) 0 two_queued)) = [0]"
    by (simp add: two_queued_def op_defs process_queue.simps)
  from a b process_queue_idempotent [of "\<lambda>_. 4" 0 "\<lambda>_. 3" 0 two_queued]
  show ?thesis by simp
qed

section \<open>Removal\<close>

text \<open>
  C5. \<^verbatim>\<open>remove_request\<close> at a queued job and at a running job: the queue entry and
  the processing entry are deleted, then line 223 raises \<^verbatim>\<open>TypeError\<close>, and the record
  is still in \<^verbatim>\<open>_all_requests\<close>.
\<close>

theorem remove_request_raises:
  "fst (remove_request ''a'' one_queued) = Inl TypeError \<and>
   queue (snd (remove_request ''a'' one_queued)) = [] \<and>
   map_of (reg (snd (remove_request ''a'' one_queued))) ''a'' = Some 0 \<and>
   map_of (processing one_running) ''a'' = Some 0 \<and>
   fst (remove_request ''a'' one_running) = Inl TypeError \<and>
   processing (snd (remove_request ''a'' one_running)) = [] \<and>
   map_option status (record_of (snd (remove_request ''a'' one_running)) ''a'') =
     Some ''processing''"
  by (simp add: one_queued_def one_running_def op_defs reg_def record_of_def
        process_queue.simps)

section \<open>Any history of calls: limits and order of the queue\<close>

lemma subseq_set_subset: "subseq xs ys \<Longrightarrow> set xs \<subseteq> set ys"
  by (induction rule: list_emb.induct) auto

lemma length_update_le: "length (AList.update k v al) \<le> Suc (length al)"
  by (induction al) auto

lemma length_delete_le: "length (AList.delete k al) \<le> length al"
  by (simp add: AList.delete_eq)

lemma shrinks_refl: "shrinks s s"
  by (simp add: shrinks_def)

lemma shrinks_trans: "shrinks s s' \<Longrightarrow> shrinks s' s'' \<Longrightarrow> shrinks s s''"
  unfolding shrinks_def by (auto intro: subseq_order.order_trans)

lemma get_next_item_shrinks: "shrinks s (snd (get_next_item s))"
  by (auto simp: shrinks_def get_next_item_def split: list.splits)

lemma start_processing_shrinks: "shrinks s (snd (start_processing now rid s))"
proof -
  have "int (length (AList.update rid r (processing s))) \<le> max_concurrent s"
    if "\<not> max_concurrent s \<le> int (length (processing s))" for r
    using that length_update_le[of rid r "processing s"] by linarith
  then show ?thesis
    by (auto simp: shrinks_def start_processing_def AList.distinct_update
             split: registry.splits option.splits)
qed

lemma complete_request_shrinks: "shrinks s (snd (complete_request now rid url s))"
proof -
  have "int (length (AList.delete rid (processing s))) \<le> max_concurrent s"
    if "int (length (processing s)) \<le> max_concurrent s"
    using that length_delete_le[of rid "processing s"] by linarith
  then show ?thesis
    by (auto simp: shrinks_def complete_request_def Let_def AList.distinct_delete
             split: registry.splits option.splits)
qed

lemma fail_request_shrinks: "shrinks s (snd (fail_request now rid msg s))"
proof -
  have "int (length (AList.delete rid (processing s))) \<le> max_concurrent s"
    if "int (length (processing s)) \<le> max_concurrent s"
    using that length_delete_le[of rid "processing s"] by linarith
  then show ?thesis
    by (auto simp: shrinks_def fail_request_def Let_def AList.distinct_delete
             split: registry.splits option.splits)
qed

lemma update_request_status_shrinks: "shrinks s (update_request_status t1 t2 rid st msg s)"
  by (auto simp: shrinks_def update_request_status_def Let_def
           split: registry.splits option.splits)

lemma cleanup_remove_shrinks: "shrinks s (snd (cleanup_remove rids s))"
proof (induction rids arbitrary: s)
  case Nil
  then show ?case by (simp add: shrinks_refl)
next
  case (Cons rid rids)
  show ?case
  proof (cases "all_requests s")
    case RList
    then show ?thesis by (simp add: shrinks_def Let_def)
  next
    case (RDict d)
    let ?s1 = "s\<lparr>completed := AList.delete rid (completed s),
                  all_requests := RDict (AList.delete rid d)\<rparr>"
    have "shrinks s ?s1" by (simp add: shrinks_def)
    from shrinks_trans[OF this Cons.IH[of ?s1]] RDict show ?thesis
      by (simp add: Let_def)
  qed
qed

lemma cleanup_old_requests_shrinks: "shrinks s (snd (cleanup_old_requests now h s))"
  by (simp add: cleanup_old_requests_def Let_def cleanup_remove_shrinks)

lemma remove_request_shrinks: "shrinks s (snd (remove_request rid s))"
proof -
  have "int (length (AList.delete rid (processing s))) \<le> max_concurrent s"
    if "int (length (processing s)) \<le> max_concurrent s"
    using that length_delete_le[of rid "processing s"] by linarith
  then show ?thesis
    by (auto simp: shrinks_def remove_request_def Let_def AList.distinct_delete
             split: registry.splits option.splits list.splits prod.splits)
qed

lemma process_queue_shrinks: "shrinks s (snd (snd (process_queue clk k s)))"
proof (induction clk k s rule: process_queue.induct)
  case (1 clk k s)
  show ?case
  proof (cases "can_start_processing s")
    case False
    then show ?thesis by (simp add: process_queue.simps shrinks_refl)
  next
    case True
    then obtain r rs where q: "queue s = r # rs"
      by (cases "queue s") (auto simp: can_start_processing_def)
    show ?thesis
    proof (cases "queue_is_deque s")
      case False
      with True q show ?thesis
        by (simp add: process_queue.simps[of clk k s] get_next_item_def shrinks_refl)
    next
      case d: True
      have g: "get_next_item s = (Inr (Some r), s\<lparr>queue := rs\<rparr>)"
        using q d by (simp add: get_next_item_def)
      let ?s2 = "snd (start_processing (clk k) (request_id (heap (s\<lparr>queue := rs\<rparr>) r))
                        (s\<lparr>queue := rs\<rparr>))"
      have a: "shrinks s (s\<lparr>queue := rs\<rparr>)"
        using get_next_item_shrinks[of s] g by simp
      have b: "shrinks (s\<lparr>queue := rs\<rparr>) ?s2" by (rule start_processing_shrinks)
      have c: "shrinks ?s2 (snd (snd (process_queue clk (Suc k) ?s2)))"
        using "1.IH"(2)[OF True g[symmetric] refl refl] .
      have "snd (snd (process_queue clk k s)) = snd (snd (process_queue clk (Suc k) ?s2))"
        using True g by (simp add: process_queue.simps[of clk k s] split: prod.splits)
      with shrinks_trans[OF a shrinks_trans[OF b c]] show ?thesis by simp
    qed
  qed
qed

lemma step_shrinks: "\<forall>now it. e \<noteq> Add now it \<Longrightarrow> shrinks s (step e s)"
  by (cases e)
     (simp_all add: get_next_item_shrinks start_processing_shrinks complete_request_shrinks
        fail_request_shrinks update_request_status_shrinks cleanup_old_requests_shrinks
        remove_request_shrinks process_queue_shrinks)


lemma add_to_queue_full:
  "max_queue_size s \<le> int (length (queue s)) \<Longrightarrow> add_to_queue now it s = (Inr False, s)"
  by (simp add: add_to_queue_def)

lemma add_to_queue_room:
  assumes "int (length (queue s)) < max_queue_size s"
  shows "queue (snd (add_to_queue now it s)) = queue s @ [next_ref s]"
    and "next_ref (snd (add_to_queue now it s)) = Suc (next_ref s)"
    and "heap (snd (add_to_queue now it s)) =
           (heap s)(next_ref s := it\<lparr>queued_at := Some now, status := ''queued''\<rparr>)"
    and "processing (snd (add_to_queue now it s)) = processing s"
    and "completed (snd (add_to_queue now it s)) = completed s"
    and "queue_is_deque (snd (add_to_queue now it s)) = queue_is_deque s"
    and "fst (add_to_queue now it s) \<noteq> Inr False"
  using assms by (auto simp: add_to_queue_def Let_def split: registry.splits)

lemma add_to_queue_limits:
  "max_queue_size (snd (add_to_queue now it s)) = max_queue_size s"
  "max_concurrent (snd (add_to_queue now it s)) = max_concurrent s"
  by (auto simp: add_to_queue_def Let_def split: registry.splits)

lemma add_to_queue_record:
  assumes "int (length (queue s)) < max_queue_size s" and "all_requests s = RDict d"
  shows "fst (add_to_queue now it s) = Inr True"
    and "record_of (snd (add_to_queue now it s)) (request_id it) =
           Some (it\<lparr>queued_at := Some now, status := ''queued''\<rparr>)"
  using assms by (auto simp: add_to_queue_def Let_def record_of_def reg_def update_conv')

lemma add_to_queue_ids:
  assumes "int (length (queue s)) < max_queue_size s" and "queue_refs_ok s"
  shows "queue_ids (snd (add_to_queue now it s)) = queue_ids s @ [request_id it]"
proof -
  have "request_id (((heap s)(next_ref s := it\<lparr>queued_at := Some now, status := ''queued''\<rparr>)) r) =
        request_id (heap s r)" if "r \<in> set (queue s)" for r
    using that assms(2) by (auto simp: queue_refs_ok_def)
  then show ?thesis
    by (simp add: queue_ids_def add_to_queue_room[OF assms(1)])
qed

lemma shrinks_queue_ids: "shrinks s s' \<Longrightarrow> subseq (queue_ids s') (queue_ids s)"
proof -
  assume a: "shrinks s s'"
  then have "queue_ids s' = map (\<lambda>r. request_id (heap s r)) (queue s')"
    by (simp add: queue_ids_def shrinks_def)
  moreover have "subseq (queue s') (queue s)" using a by (simp add: shrinks_def)
  ultimately show ?thesis
    using subseq_map[of "queue s'" "queue s" "\<lambda>r. request_id (heap s r)"]
    by (simp only: queue_ids_def)
qed

lemma shrinks_refs_ok: "shrinks s s' \<Longrightarrow> queue_refs_ok s \<Longrightarrow> queue_refs_ok s'"
proof -
  assume a: "shrinks s s'" and b: "queue_refs_ok s"
  from a have "subseq (queue s') (queue s)" by (simp add: shrinks_def)
  then have "set (queue s') \<subseteq> set (queue s)" by (rule subseq_set_subset)
  then show ?thesis using a b by (auto simp: shrinks_def queue_refs_ok_def)
qed

lemma shrinks_within_limit: "shrinks s s' \<Longrightarrow> within_limit s \<Longrightarrow> within_limit s'"
proof -
  assume a: "shrinks s s'" and b: "within_limit s"
  from a have "subseq (queue s') (queue s)" by (simp add: shrinks_def)
  then have "length (queue s') \<le> length (queue s)" by (rule list_emb_length)
  then show ?thesis using a b by (auto simp: shrinks_def within_limit_def)
qed

lemma shrinks_gated: "shrinks s s' \<Longrightarrow> gated s \<Longrightarrow> gated s'"
  by (auto simp: shrinks_def gated_def)

lemma add_to_queue_refs_ok: "queue_refs_ok s \<Longrightarrow> queue_refs_ok (snd (add_to_queue now it s))"
proof (cases "max_queue_size s \<le> int (length (queue s))")
  case True
  assume "queue_refs_ok s"
  with True show ?thesis by (simp add: add_to_queue_full)
next
  case False
  assume b: "queue_refs_ok s"
  from False have r: "int (length (queue s)) < max_queue_size s" by simp
  show ?thesis
    using b by (auto simp: queue_refs_ok_def add_to_queue_room[OF r])
qed

lemma add_to_queue_within_limit:
  "within_limit s \<Longrightarrow> within_limit (snd (add_to_queue now it s))"
proof (cases "max_queue_size s \<le> int (length (queue s))")
  case True
  assume "within_limit s"
  with True show ?thesis by (simp add: add_to_queue_full)
next
  case False
  from False have r: "int (length (queue s)) < max_queue_size s" by simp
  show ?thesis
    using r by (auto simp: within_limit_def add_to_queue_room[OF r] add_to_queue_limits)
qed

lemma add_to_queue_gated: "gated s \<Longrightarrow> gated (snd (add_to_queue now it s))"
proof (cases "max_queue_size s \<le> int (length (queue s))")
  case True
  assume "gated s"
  with True show ?thesis by (simp add: add_to_queue_full)
next
  case False
  assume b: "gated s"
  from False have r: "int (length (queue s)) < max_queue_size s" by simp
  show ?thesis
    using b by (auto simp: gated_def add_to_queue_room[OF r] add_to_queue_limits)
qed

lemma step_refs_ok: "queue_refs_ok s \<Longrightarrow> queue_refs_ok (step e s)"
proof (cases "\<exists>now it. e = Add now it")
  case True
  assume "queue_refs_ok s"
  with True show ?thesis by (auto simp: add_to_queue_refs_ok)
next
  case False
  assume "queue_refs_ok s"
  with False step_shrinks[of e s] show ?thesis by (auto intro: shrinks_refs_ok)
qed

lemma step_within_limit: "within_limit s \<Longrightarrow> within_limit (step e s)"
proof (cases "\<exists>now it. e = Add now it")
  case True
  assume "within_limit s"
  with True show ?thesis by (auto simp: add_to_queue_within_limit)
next
  case False
  assume "within_limit s"
  with False step_shrinks[of e s] show ?thesis by (auto intro: shrinks_within_limit)
qed

lemma step_gated: "gated s \<Longrightarrow> gated (step e s)"
proof (cases "\<exists>now it. e = Add now it")
  case True
  assume "gated s"
  with True show ?thesis by (auto simp: add_to_queue_gated)
next
  case False
  assume "gated s"
  with False step_shrinks[of e s] show ?thesis by (auto intro: shrinks_gated)
qed

lemma run_refs_ok: "queue_refs_ok s \<Longrightarrow> queue_refs_ok (run evs s)"
  by (induction evs arbitrary: s) (auto simp: step_refs_ok)

lemma run_within_limit: "within_limit s \<Longrightarrow> within_limit (run evs s)"
  by (induction evs arbitrary: s) (auto simp: step_within_limit)

lemma run_gated: "gated s \<Longrightarrow> gated (run evs s)"
  by (induction evs arbitrary: s) (auto simp: step_gated)

lemma step_limits:
  "max_queue_size (step e s) = max_queue_size s \<and> max_concurrent (step e s) = max_concurrent s"
proof (cases "\<exists>now it. e = Add now it")
  case True
  then show ?thesis by (auto simp: add_to_queue_limits)
next
  case False
  with step_shrinks[of e s] show ?thesis by (auto simp: shrinks_def)
qed

lemma run_limits:
  "max_queue_size (run evs s) = max_queue_size s \<and> max_concurrent (run evs s) = max_concurrent s"
  by (induction evs arbitrary: s) (auto simp: step_limits)

lemma init_facts:
  "queue_refs_ok (init mq mc)" "0 \<le> mq \<Longrightarrow> within_limit (init mq mc)"
  "0 \<le> mc \<Longrightarrow> gated (init mq mc)" "queue_ids (init mq mc) = []"
  "max_queue_size (init mq mc) = mq" "max_concurrent (init mq mc) = mc"
  by (simp_all add: init_def queue_refs_ok_def within_limit_def gated_def queue_ids_def)

lemma run_queue_subseq:
  "queue_refs_ok s \<Longrightarrow> subseq (queue_ids (run evs s)) (queue_ids s @ submitted evs)"
proof (induction evs arbitrary: s)
  case Nil
  then show ?case by simp
next
  case (Cons e es)
  have b1: "queue_refs_ok (step e s)" using Cons.prems by (rule step_refs_ok)
  have ih: "subseq (queue_ids (run es (step e s))) (queue_ids (step e s) @ submitted es)"
    using Cons.IH[OF b1] .
  show ?case
  proof (cases "\<exists>now it. e = Add now it")
    case True
    then obtain now it where e: "e = Add now it" by blast
    show ?thesis
    proof (cases "max_queue_size s \<le> int (length (queue s))")
      case True
      then have "step e s = s" using e by (simp add: add_to_queue_full)
      with ih have "subseq (queue_ids (run es (step e s))) (queue_ids s @ submitted es)"
        by simp
      moreover have "subseq (submitted es) (request_id it # submitted es)"
        by (rule list_emb_Cons) simp
      then have "subseq (queue_ids s @ submitted es) (queue_ids s @ request_id it # submitted es)"
        by (simp add: subseq_append')
      ultimately show ?thesis using e
        by (auto intro: subseq_order.order_trans)
    next
      case False
      then have r: "int (length (queue s)) < max_queue_size s" by simp
      have "queue_ids (step e s) = queue_ids s @ [request_id it]"
        using e add_to_queue_ids[OF r] Cons.prems by simp
      with ih e show ?thesis by simp
    qed
  next
    case False
    then have "shrinks s (step e s)" using step_shrinks[of e s] by blast
    then have "subseq (queue_ids (step e s)) (queue_ids s)" by (rule shrinks_queue_ids)
    then have "subseq (queue_ids (step e s) @ submitted es) (queue_ids s @ submitted es)"
      by (simp add: list_emb_append_mono)
    moreover have "submitted (e # es) = submitted es" using False by (cases e) auto
    ultimately show ?thesis using ih
      by (auto intro: subseq_order.order_trans)
  qed
qed

lemma precedes_split:
  "precedes a b ys \<Longrightarrow> \<exists>us vs. ys = us @ a # vs \<and> a \<notin> set us \<and> b \<in> set vs"
proof -
  assume p: "precedes a b ys"
  let ?d = "dropWhile (\<lambda>x. x \<noteq> a) ys"
  have ne: "?d \<noteq> []"
  proof
    assume "?d = []"
    with p show False by (simp add: precedes_def)
  qed
  then have "hd ?d = a" using hd_dropWhile[of "\<lambda>x. x \<noteq> a" ys] by auto
  with ne have d: "?d = a # tl ?d" by (cases ?d) auto
  have "ys = takeWhile (\<lambda>x. x \<noteq> a) ys @ a # tl ?d"
    using takeWhile_dropWhile_id[of "\<lambda>x. x \<noteq> a" ys] d by simp
  moreover have "a \<notin> set (takeWhile (\<lambda>x. x \<noteq> a) ys)"
    by (auto dest: set_takeWhileD)
  moreover have "b \<in> set (tl ?d)" using p by (simp add: precedes_def)
  ultimately show ?thesis by blast
qed

lemma subseq_keeps_order:
  assumes "subseq xs ys" "distinct ys" "precedes a b ys" "a \<in> set xs" "b \<in> set xs"
  shows "\<exists>xs1 xs2. xs = xs1 @ a # xs2 \<and> b \<in> set xs2"
proof -
  from precedes_split[OF assms(3)] obtain us vs where
    ys: "ys = us @ a # vs" "a \<notin> set us" "b \<in> set vs" by blast
  from assms(1) ys(1) obtain xs1 xs2 where
    xs: "xs = xs1 @ xs2" "subseq xs1 us" "subseq xs2 (a # vs)"
    by (auto elim: subseq_appendE)
  from assms(2) ys have nb: "b \<notin> set us" "a \<notin> set vs" "b \<noteq> a" by auto
  have s1: "set xs1 \<subseteq> set us" using xs(2) by (rule subseq_set_subset)
  with ys(2) nb(1) have "a \<notin> set xs1" "b \<notin> set xs1" by auto
  with assms(4,5) xs(1) have in2: "a \<in> set xs2" "b \<in> set xs2" by auto
  obtain x xs2' where c: "xs2 = x # xs2'" using in2 by (cases xs2) auto
  have "x = a"
  proof (rule ccontr)
    assume "x \<noteq> a"
    with xs(3) c have "subseq xs2 vs" by simp
    then have "set xs2 \<subseteq> set vs" by (rule subseq_set_subset)
    with in2(1) nb(2) show False by auto
  qed
  with c in2(2) nb(3) have "xs2 = a # xs2'" "b \<in> set xs2'" by auto
  with xs(1) show ?thesis by blast
qed

lemma subseq_distinct: "subseq xs ys \<Longrightarrow> distinct ys \<Longrightarrow> distinct xs"
  by (metis subseqs_distinctD in_set_subseqs)

lemma position_order:
  assumes "distinct xs" "xs = xs1 @ a # xs2" "b \<in> set xs2"
    "1 \<le> pa" "pa \<le> length xs" "xs ! (pa - 1) = a"
    "1 \<le> pb" "pb \<le> length xs" "xs ! (pb - 1) = b"
  shows "pa < pb"
proof -
  from assms(3) obtain j where j: "j < length xs2" "xs2 ! j = b"
    by (auto simp: in_set_conv_nth)
  have ia: "xs ! length xs1 = a" using assms(2) by simp
  have ib: "xs ! (length xs1 + 1 + j) = b" using assms(2) j by (simp add: nth_append)
  have la: "length xs1 < length xs" and lb: "length xs1 + 1 + j < length xs"
    using assms(2) j by auto
  have "pa - 1 = length xs1"
    using assms(1,4,5,6) ia la nth_eq_iff_index_eq[of xs "pa - 1" "length xs1"] by auto
  moreover have "pb - 1 = length xs1 + 1 + j"
    using assms(1,7,8,9) ib lb nth_eq_iff_index_eq[of xs "pb - 1" "length xs1 + 1 + j"] by auto
  ultimately show ?thesis using assms(4,7) by arith
qed

lemma process_queue_launches_prefix:
  "prefix (fst (snd (process_queue clk k s))) (queue s)"
proof (induction clk k s rule: process_queue.induct)
  case (1 clk k s)
  show ?case
  proof (cases "can_start_processing s")
    case False
    then show ?thesis by (simp add: process_queue.simps)
  next
    case True
    then obtain r rs where q: "queue s = r # rs"
      by (cases "queue s") (auto simp: can_start_processing_def)
    show ?thesis
    proof (cases "queue_is_deque s")
      case False
      with True q show ?thesis
        by (simp add: process_queue.simps[of clk k s] get_next_item_def)
    next
      case d: True
      have g: "get_next_item s = (Inr (Some r), s\<lparr>queue := rs\<rparr>)"
        using q d by (simp add: get_next_item_def)
      let ?s2 = "snd (start_processing (clk k) (request_id (heap (s\<lparr>queue := rs\<rparr>) r))
                        (s\<lparr>queue := rs\<rparr>))"
      have "queue ?s2 = rs"
        by (auto simp: start_processing_def split: registry.splits option.splits)
      with "1.IH"(2)[OF True g[symmetric] refl refl]
      have "prefix (fst (snd (process_queue clk (Suc k) ?s2))) rs" by simp
      then show ?thesis
        using True g q by (auto simp: process_queue.simps[of clk k s] split: prod.splits)
    qed
  qed
qed

text \<open>
  C1. The admission queue. After any history of calls of the manager, made with a
  non-negative \<open>max_queue_size\<close> and with pairwise different submitted identifiers (they
  are \<^verbatim>\<open>uuid4\<close> values in \<^verbatim>\<open>generate_video\<close>), the queue holds at most \<open>max_queue_size\<close>
  entries and no identifier twice. In such a state a submission that finds the queue at
  its limit returns \<^verbatim>\<open>False\<close> and leaves the state as it is, so no record is created;
  any other submission appends the job to the queue, and returns \<^verbatim>\<open>True\<close> with the
  record stored under its identifier when \<^verbatim>\<open>_all_requests\<close> is a dict.
\<close>

theorem admission_queue_invariant:
  assumes "0 \<le> mq" and "distinct (submitted evs)"
  shows "int (length (queue (run evs (init mq mc)))) \<le> mq \<and>
    distinct (queue_ids (run evs (init mq mc))) \<and>
    (mq \<le> int (length (queue (run evs (init mq mc)))) \<longrightarrow>
       add_to_queue now it (run evs (init mq mc)) = (Inr False, run evs (init mq mc))) \<and>
    (int (length (queue (run evs (init mq mc)))) < mq \<longrightarrow>
       fst (add_to_queue now it (run evs (init mq mc))) \<noteq> Inr False \<and>
       queue_ids (snd (add_to_queue now it (run evs (init mq mc)))) =
         queue_ids (run evs (init mq mc)) @ [request_id it] \<and>
       (\<forall>d. all_requests (run evs (init mq mc)) = RDict d \<longrightarrow>
          fst (add_to_queue now it (run evs (init mq mc))) = Inr True \<and>
          record_of (snd (add_to_queue now it (run evs (init mq mc)))) (request_id it) =
            Some (it\<lparr>queued_at := Some now, status := ''queued''\<rparr>)))"
proof -
  let ?s = "run evs (init mq mc)"
  have m: "max_queue_size ?s = mq" by (simp add: run_limits init_facts)
  have "within_limit ?s" using assms(1) by (simp add: run_within_limit init_facts)
  then have a: "int (length (queue ?s)) \<le> mq" using m by (simp add: within_limit_def)
  have ok: "queue_refs_ok ?s" by (simp add: run_refs_ok init_facts)
  have "subseq (queue_ids ?s) (submitted evs)"
    using run_queue_subseq[of "init mq mc" evs] by (simp add: init_facts)
  then have b: "distinct (queue_ids ?s)" using assms(2) by (rule subseq_distinct)
  have c: "mq \<le> int (length (queue ?s)) \<longrightarrow> add_to_queue now it ?s = (Inr False, ?s)"
    using m by (simp add: add_to_queue_full)
  have d: "int (length (queue ?s)) < mq \<longrightarrow>
       fst (add_to_queue now it ?s) \<noteq> Inr False \<and>
       queue_ids (snd (add_to_queue now it ?s)) = queue_ids ?s @ [request_id it] \<and>
       (\<forall>d. all_requests ?s = RDict d \<longrightarrow>
          fst (add_to_queue now it ?s) = Inr True \<and>
          record_of (snd (add_to_queue now it ?s)) (request_id it) =
            Some (it\<lparr>queued_at := Some now, status := ''queued''\<rparr>))"
    using m ok add_to_queue_room(7)[of ?s now it] add_to_queue_ids[of ?s now it]
      add_to_queue_record[of ?s _ now it]
    by auto
  from a b c d show ?thesis by blast
qed

theorem admission_queue_invariant_witness:
  "(0::int) \<le> 2 \<and>
   distinct (submitted [Add 1 (sample_item ''a''), Add 2 (sample_item ''b'')]) \<and>
   int (length (queue two_queued)) = 2 \<and>
   distinct (queue_ids two_queued) \<and>
   add_to_queue 3 (sample_item ''c'') two_queued = (Inr False, two_queued) \<and>
   fst (add_to_queue 2 (sample_item ''b'') (run [Add 1 (sample_item ''a'')] (init 2 1))) =
     Inr True \<and>
   queue_ids (snd (add_to_queue 2 (sample_item ''b'')
                      (run [Add 1 (sample_item ''a'')] (init 2 1)))) = [''a'', ''b'']"
proof -
  have h: "(0::int) \<le> 2" by simp
  have d2: "distinct (submitted [Add 1 (sample_item ''a''), Add 2 (sample_item ''b'')])"
    by (simp add: sample_item_def blank_item_def)
  have d1: "distinct (submitted [Add 1 (sample_item ''a'')])" by simp
  have full: "int (length (queue two_queued)) = 2"
    by (simp add: two_queued_def op_defs)
  have room: "int (length (queue (run [Add 1 (sample_item ''a'')] (init 2 1)))) < 2"
    by (simp add: op_defs)
  have dict: "all_requests (run [Add 1 (sample_item ''a'')] (init 2 1)) = RDict [(''a'', 0)]"
    by (simp add: op_defs)
  have ids: "queue_ids (run [Add 1 (sample_item ''a'')] (init 2 1)) = [''a'']"
    by (simp add: op_defs queue_ids_def)
  from admission_queue_invariant [OF h d2, of 1 3 "sample_item ''c''"] full
  have a: "distinct (queue_ids two_queued)"
    "add_to_queue 3 (sample_item ''c'') two_queued = (Inr False, two_queued)"
    by (simp_all add: two_queued_def)
  from admission_queue_invariant [OF h d1, of 1 2 "sample_item ''b''"] room dict ids
  have b: "fst (add_to_queue 2 (sample_item ''b'') (run [Add 1 (sample_item ''a'')] (init 2 1))) =
     Inr True"
    "queue_ids (snd (add_to_queue 2 (sample_item ''b'')
                      (run [Add 1 (sample_item ''a'')] (init 2 1)))) = [''a'', ''b'']"
    by (simp_all add: sample_item_def blank_item_def)
  from h d2 full a b show ?thesis by blast
qed

text \<open>
  C4. First in, first out. After any history of calls with pairwise different submitted
  identifiers: when \<open>a\<close> was submitted before \<open>b\<close> and both have a queue position, the
  position of \<open>a\<close> is the smaller one. In every state \<^verbatim>\<open>get_next_item\<close> takes the head of
  the queue, the entry at position 1, and a pass of \<^verbatim>\<open>process_queue\<close> launches a prefix
  of the queue, in queue order.
\<close>

theorem fifo_order:
  assumes "distinct (submitted evs)"
    and "get_queue_position (run evs (init mq mc)) a = Some pa"
    and "get_queue_position (run evs (init mq mc)) b = Some pb"
    and "precedes a b (submitted evs)"
  shows "pa < pb \<and>
    (\<forall>r rs. queue s = r # rs \<and> queue_is_deque s \<longrightarrow>
       get_next_item s = (Inr (Some r), s\<lparr>queue := rs\<rparr>) \<and>
       get_queue_position s (request_id (heap s r)) = Some 1) \<and>
    prefix (fst (snd (process_queue clk k s))) (queue s)"
proof -
  let ?s = "run evs (init mq mc)"
  have sub: "subseq (queue_ids ?s) (submitted evs)"
    using run_queue_subseq[of "init mq mc" evs] by (simp add: init_facts)
  then have dis: "distinct (queue_ids ?s)" using assms(1) by (rule subseq_distinct)
  from assms(2) have pa: "1 \<le> pa" "pa \<le> length (queue_ids ?s)" "queue_ids ?s ! (pa - 1) = a"
    using queue_position_Some[of ?s a pa] by auto
  from assms(3) have pb: "1 \<le> pb" "pb \<le> length (queue_ids ?s)" "queue_ids ?s ! (pb - 1) = b"
    using queue_position_Some[of ?s b pb] by auto
  have ina: "a \<in> set (queue_ids ?s)" using pa by (auto simp: in_set_conv_nth intro!: exI[of _ "pa - 1"])
  have inb: "b \<in> set (queue_ids ?s)" using pb by (auto simp: in_set_conv_nth intro!: exI[of _ "pb - 1"])
  from subseq_keeps_order[OF sub assms(1) assms(4) ina inb] obtain xs1 xs2 where
    "queue_ids ?s = xs1 @ a # xs2" "b \<in> set xs2" by blast
  from position_order[OF dis this pa pb] have one: "pa < pb" .
  have two: "\<forall>r rs. queue s = r # rs \<and> queue_is_deque s \<longrightarrow>
       get_next_item s = (Inr (Some r), s\<lparr>queue := rs\<rparr>) \<and>
       get_queue_position s (request_id (heap s r)) = Some 1"
    by (auto simp: get_next_item_def get_queue_position_def)
  from one two process_queue_launches_prefix[of clk k s] show ?thesis by blast
qed

theorem fifo_order_witness:
  "distinct (submitted [Add 1 (sample_item ''a''), Add 2 (sample_item ''b'')]) \<and>
   get_queue_position two_queued ''a'' = Some 1 \<and>
   get_queue_position two_queued ''b'' = Some 2 \<and>
   precedes ''a'' ''b'' (submitted [Add 1 (sample_item ''a''), Add 2 (sample_item ''b'')]) \<and>
   (1::nat) < 2 \<and>
   get_next_item two_queued = (Inr (Some 0), two_queued\<lparr>queue := [1]\<rparr>) \<and>
   get_queue_position two_queued (request_id (heap two_queued 0)) = Some 1"
proof -
  have d: "distinct (submitted [Add 1 (sample_item ''a''), Add 2 (sample_item ''b'')])"
    by (simp add: sample_item_def blank_item_def)
  have pa: "get_queue_position (run [Add 1 (sample_item ''a''), Add 2 (sample_item ''b'')]
              (init 2 1)) ''a'' = Some 1"
    by (simp add: op_defs get_queue_position_def)
  have pb: "get_queue_position (run [Add 1 (sample_item ''a''), Add 2 (sample_item ''b'')]
              (init 2 1)) ''b'' = Some 2"
    by (simp add: op_defs get_queue_position_def)
  have pr: "precedes ''a'' ''b''
              (submitted [Add 1 (sample_item ''a''), Add 2 (sample_item ''b'')])"
    by (simp add: precedes_def sample_item_def blank_item_def)
  have q: "queue two_queued = [0, 1]" "queue_is_deque two_queued"
    by (simp_all add: two_queued_def op_defs)
  from fifo_order [OF d pa pb pr, of two_queued "\<lambda>_. 0" 0] q
  have "(1::nat) < 2"
    "get_next_item two_queued = (Inr (Some 0), two_queued\<lparr>queue := [1]\<rparr>)"
    "get_queue_position two_queued (request_id (heap two_queued 0)) = Some 1"
    by simp_all
  with d pa pb pr show ?thesis by (simp add: two_queued_def)
qed

section \<open>Updating status and message\<close>

text \<open>
  C6, as the code has it. \<^verbatim>\<open>update_request_status\<close> has no guard on the current status:
  it changes a record whenever the identifier is a key of \<^verbatim>\<open>_all_requests\<close>. It then
  overwrites status, message and \<^verbatim>\<open>last_updated\<close> of that record (and of the item the
  processing dict holds under the identifier), leaves every other field, every other
  item and all containers as they are, and does nothing for an unknown identifier.
\<close>

theorem update_request_status_effect:
  "(map_of (reg s) rid = None \<longrightarrow> update_request_status t1 t2 rid st msg s = s) \<and>
   (\<forall>r. map_of (reg s) rid = Some r \<longrightarrow>
      record_of (update_request_status t1 t2 rid st msg s) rid =
        Some ((heap s r)\<lparr>status := st, message := Some msg,
               last_updated := Some (if map_of (processing s) rid = Some r then t2 else t1)\<rparr>) \<and>
      (\<forall>r'. r' \<noteq> r \<and> map_of (processing s) rid \<noteq> Some r' \<longrightarrow>
         heap (update_request_status t1 t2 rid st msg s) r' = heap s r') \<and>
      update_request_status t1 t2 rid st msg s =
        s\<lparr>heap := heap (update_request_status t1 t2 rid st msg s)\<rparr>)"
  by (auto simp: update_request_status_def record_of_def reg_def Let_def
           split: registry.splits option.splits)

theorem update_request_status_effect_witness:
  "map_of (reg one_queued) ''a'' = Some 0 \<and>
   map_option status (record_of one_queued ''a'') = Some ''queued'' \<and>
   record_of (update_request_status 2 3 ''a'' ''processing'' ''hello'' one_queued) ''a'' =
     Some ((heap one_queued 0)\<lparr>status := ''processing'', message := Some ''hello'',
            last_updated := Some 2\<rparr>) \<and>
   map_of (reg one_queued) ''z'' = None \<and>
   update_request_status 2 3 ''z'' ''processing'' ''hello'' one_queued = one_queued"
proof -
  have a: "map_of (reg one_queued) ''a'' = Some 0"
    by (simp add: one_queued_def op_defs reg_def)
  have b: "map_of (processing one_queued) ''a'' \<noteq> Some 0"
    by (simp add: one_queued_def op_defs)
  have c: "map_option status (record_of one_queued ''a'') = Some ''queued''"
    by (simp add: one_queued_def op_defs reg_def record_of_def)
  have z: "map_of (reg one_queued) ''z'' = None"
    by (simp add: one_queued_def op_defs reg_def)
  from update_request_status_effect [of one_queued "''a''" 2 3 "''processing''" "''hello''"] a b
  have d: "record_of (update_request_status 2 3 ''a'' ''processing'' ''hello'' one_queued) ''a'' =
     Some ((heap one_queued 0)\<lparr>status := ''processing'', message := Some ''hello'',
            last_updated := Some 2\<rparr>)" by simp
  from update_request_status_effect [of one_queued "''z''" 2 3 "''processing''" "''hello''"] z
  have e: "update_request_status 2 3 ''z'' ''processing'' ''hello'' one_queued = one_queued"
    by simp
  from a c d z e show ?thesis by blast
qed

text \<open>
  C6 as stated fails: a record whose status is queued is changed by the call, in its
  status, its message and its \<^verbatim>\<open>last_updated\<close> key.
\<close>

theorem update_changes_queued_record:
  "map_option status (record_of one_queued ''a'') = Some ''queued'' \<and>
   map_option message (record_of one_queued ''a'') = Some None \<and>
   map_option status (record_of
      (update_request_status 2 3 ''a'' ''processing'' ''hello'' one_queued) ''a'') =
     Some ''processing'' \<and>
   map_option message (record_of
      (update_request_status 2 3 ''a'' ''processing'' ''hello'' one_queued) ''a'') =
     Some (Some ''hello'') \<and>
   record_of (update_request_status 2 3 ''a'' ''processing'' ''hello'' one_queued) ''a'' \<noteq>
     record_of one_queued ''a''"
  by (simp add: one_queued_def op_defs reg_def record_of_def)

section \<open>Histories as the application makes them: consistency of the containers\<close>

lemma update_fresh: "k \<notin> fst ` set al \<Longrightarrow> AList.update k v al = al @ [(k, v)]"
  by (induction al) auto

lemma update_same: "(k, v) \<in> set al \<Longrightarrow> distinct (map fst al) \<Longrightarrow> AList.update k v al = al"
  by (simp add: update_triv)

lemma set_delete: "set (AList.delete k al) = {p \<in> set al. fst p \<noteq> k}"
  by (auto simp: AList.delete_eq)

lemma wf_init: "wf_state (init mq mc)"
  by (simp add: wf_state_def wf_kinds_def wf_keys_def wf_reg_def wf_cells_def init_def
        queue_ids_def queue_entries_def reg_def)

lemma wf_entry:
  assumes "wf_reg s"
    and "(k, r) \<in> set (queue_entries s) \<union> set (processing s) \<union> set (completed s)"
  shows "request_id (heap s r) = k" "r < next_ref s"
  using assms unfolding wf_reg_def by blast+

lemma wf_queue_ref:
  assumes "wf_reg s" "r \<in> set (queue s)"
  shows "r < next_ref s"
  using wf_entry(2)[OF assms(1), of "request_id (heap s r)" r] assms(2)
  by (auto simp: queue_entries_def)

lemma wf_lookup:
  assumes "wf_keys s" "(k, r) \<in> set (reg s)"
  shows "map_of (reg s) k = Some r"
  using assms by (simp add: wf_keys_def)


lemma wf_refs:
  assumes "wf_reg s"
  shows "r \<in> set (queue s) \<Longrightarrow> r < next_ref s"
    and "(k, r) \<in> set (processing s) \<Longrightarrow> r < next_ref s \<and> request_id (heap s r) = k"
    and "(k, r) \<in> set (completed s) \<Longrightarrow> r < next_ref s \<and> request_id (heap s r) = k"
proof -
  show "r < next_ref s" if "r \<in> set (queue s)"
    using wf_queue_ref[OF assms that] .
  show "r < next_ref s \<and> request_id (heap s r) = k" if "(k, r) \<in> set (processing s)"
    using wf_entry[OF assms, of k r] that by simp
  show "r < next_ref s \<and> request_id (heap s r) = k" if "(k, r) \<in> set (completed s)"
    using wf_entry[OF assms, of k r] that by simp
qed

lemma wf_after_add:
  assumes wf: "wf_state s"
    and h: "heap s' = (heap s)(next_ref s := c)"
    and n: "next_ref s' = Suc (next_ref s)"
    and q: "queue s' = queue s @ [next_ref s]"
    and a: "all_requests s' = RDict (reg s @ [(request_id c, next_ref s)])"
    and p: "processing s' = processing s"
    and d: "completed s' = completed s"
    and k: "queue_is_deque s' = queue_is_deque s"
    and fresh: "request_id c \<notin> set (ids_in_use s)"
    and cell: "queued_cell c"
  shows "wf_state s'"
proof -
  from wf have w: "wf_kinds s" "wf_keys s" "wf_reg s" "wf_cells s"
    by (simp_all add: wf_state_def)
  have old: "heap s' r = heap s r" if "r < next_ref s" for r
    using that h by simp
  have qold: "heap s' r = heap s r" if "r \<in> set (queue s)" for r
    using wf_refs(1)[OF w(3) that] old by simp
  have ids: "queue_ids s' = queue_ids s @ [request_id c]"
    using qold by (simp add: queue_ids_def q h)
  have ents: "queue_entries s' = queue_entries s @ [(request_id c, next_ref s)]"
    using qold by (simp add: queue_entries_def q h)
  have r': "reg s' = reg s @ [(request_id c, next_ref s)]"
    by (simp add: reg_def a)
  from fresh have f: "request_id c \<notin> set (queue_ids s)"
    "request_id c \<notin> fst ` set (processing s)" "request_id c \<notin> fst ` set (completed s)"
    "request_id c \<notin> fst ` set (reg s)"
    by (auto simp: ids_in_use_def)
  have 1: "wf_kinds s'" using w(1) by (simp add: wf_kinds_def a k)
  have 2: "wf_keys s'"
    using w(2) f unfolding wf_keys_def ids r' p d by auto
  have 3: "wf_reg s'"
  proof -
    have e: "set (reg s') = set (queue_entries s') \<union> set (processing s') \<union> set (completed s')"
      using w(3) unfolding wf_reg_def r' ents p d by auto
    have "request_id (heap s' r) = k \<and> r < next_ref s'" if "(k, r) \<in> set (reg s')" for k r
    proof -
      from that consider "(k, r) \<in> set (reg s)" | "k = request_id c" "r = next_ref s"
        by (auto simp: r')
      then show ?thesis
      proof cases
        case 1
        with w(3) have "request_id (heap s r) = k" "r < next_ref s"
          by (auto simp: wf_reg_def)
        with old show ?thesis by (simp add: n)
      next
        case 2
        then show ?thesis by (simp add: h n)
      qed
    qed
    with e show ?thesis unfolding wf_reg_def by blast
  qed
  have 4: "wf_cells s'"
    unfolding wf_cells_def
  proof (intro conjI allI impI)
    fix r assume "r \<in> set (queue s')"
    then consider "r \<in> set (queue s)" | "r = next_ref s" by (auto simp: q)
    then show "queued_cell (heap s' r)"
    proof cases
      case 1
      with w(4) qold show ?thesis by (simp add: wf_cells_def)
    next
      case 2
      with cell show ?thesis by (simp add: h)
    qed
  next
    fix k r assume "(k, r) \<in> set (processing s')"
    then have m: "(k, r) \<in> set (processing s)" by (simp add: p)
    with wf_refs(2)[OF w(3)] old have "heap s' r = heap s r" by blast
    with m w(4) show "running_cell (heap s' r)" by (auto simp: wf_cells_def)
  next
    fix k r assume "(k, r) \<in> set (completed s')"
    then have m: "(k, r) \<in> set (completed s)" by (simp add: d)
    with wf_refs(3)[OF w(3)] old have "heap s' r = heap s r" by blast
    with m w(4) show "terminal_cell (heap s' r)" by (auto simp: wf_cells_def)
  qed
  from 1 2 3 4 show ?thesis by (simp add: wf_state_def)
qed

lemma add_to_queue_wf:
  assumes "wf_state s" "allowed (Add now it) s"
  shows "wf_state (snd (add_to_queue now it s))"
proof (cases "max_queue_size s \<le> int (length (queue s))")
  case True
  with assms(1) show ?thesis by (simp add: add_to_queue_def)
next
  case False
  from assms(1) obtain d where d: "all_requests s = RDict d"
    by (auto simp: wf_state_def wf_kinds_def)
  then have rd: "reg s = d" by (simp add: reg_def)
  let ?c = "it\<lparr>queued_at := Some now, status := ''queued''\<rparr>"
  from assms(2) have fr: "request_id ?c \<notin> set (ids_in_use s)" and qc: "queued_cell ?c"
    by (simp_all add: queued_cell_def)
  from fr have "request_id it \<notin> fst ` set d" by (simp add: ids_in_use_def rd)
  then have u: "AList.update (request_id it) (next_ref s) d = d @ [(request_id it, next_ref s)]"
    by (rule update_fresh)
  show ?thesis
    by (rule wf_after_add[OF assms(1) _ _ _ _ _ _ _ fr qc])
       (simp_all add: add_to_queue_def Let_def False d rd u)
qed

lemma wf_after_promote:
  assumes wf: "wf_state s"
    and hd: "queue s = r # rs"
    and h: "heap s' = (heap s)(r := c)"
    and idc: "request_id c = request_id (heap s r)"
    and rc: "running_cell c"
    and q: "queue s' = rs"
    and p: "processing s' = processing s @ [(request_id (heap s r), r)]"
    and d: "completed s' = completed s"
    and a: "all_requests s' = all_requests s"
    and n: "next_ref s' = next_ref s"
    and k: "queue_is_deque s' = queue_is_deque s"
  shows "wf_state s'"
proof -
  from wf have w: "wf_kinds s" "wf_keys s" "wf_reg s" "wf_cells s"
    by (simp_all add: wf_state_def)
  let ?id = "request_id (heap s r)"
  have rid: "request_id (heap s' x) = request_id (heap s x)" for x
    using h idc by simp
  have ids: "queue_ids s = ?id # queue_ids s'"
    by (simp add: queue_ids_def hd q rid)
  have ents: "queue_entries s = (?id, r) # queue_entries s'"
    by (simp add: queue_entries_def hd q rid)
  have r': "reg s' = reg s" by (simp add: reg_def a)
  from w(2) have nq: "?id \<notin> set (queue_ids s')" and np: "?id \<notin> fst ` set (processing s)"
    and nc: "?id \<notin> fst ` set (completed s)"
    unfolding wf_keys_def ids by auto
  have other: "heap s' x = heap s x" if "request_id (heap s x) \<noteq> ?id" for x
    using that h by auto
  have 1: "wf_kinds s'" using w(1) by (simp add: wf_kinds_def a k)
  have 2: "wf_keys s'"
    using w(2) nq np nc unfolding wf_keys_def ids r' p d by auto
  have 3: "wf_reg s'"
    using w(3) unfolding wf_reg_def r' ents p d n by (auto simp: rid)
  have 4: "wf_cells s'"
  proof -
    have a: "queued_cell (heap s' x)" if "x \<in> set (queue s')" for x
    proof -
      from that have "request_id (heap s x) \<in> set (queue_ids s')"
        by (auto simp: queue_ids_def rid)
      with nq have "request_id (heap s x) \<noteq> ?id" by auto
      moreover from that have "x \<in> set (queue s)" by (simp add: hd q)
      ultimately show ?thesis using w(4) other by (simp add: wf_cells_def)
    qed
    have b: "running_cell (heap s' x)" if "(k, x) \<in> set (processing s')" for k x
    proof (cases "(k, x) \<in> set (processing s)")
      case True
      with wf_refs(2)[OF w(3), of k x] np have "request_id (heap s x) \<noteq> ?id"
        by force
      with True w(4) other show ?thesis by (auto simp: wf_cells_def)
    next
      case False
      with that have "x = r" by (simp add: p)
      with rc show ?thesis by (simp add: h)
    qed
    have c: "terminal_cell (heap s' x)" if "(k, x) \<in> set (completed s')" for k x
    proof -
      from that have m: "(k, x) \<in> set (completed s)" by (simp add: d)
      with wf_refs(3)[OF w(3), of k x] nc have "request_id (heap s x) \<noteq> ?id"
        by force
      with m w(4) other show ?thesis by (auto simp: wf_cells_def)
    qed
    from a b c show ?thesis unfolding wf_cells_def by blast
  qed
  from 1 2 3 4 show ?thesis by (simp add: wf_state_def)
qed

lemma wf_after_touch:
  assumes wf: "wf_state s"
    and h: "\<And>x. request_id (heap s' x) = request_id (heap s x) \<and>
            status (heap s' x) = status (heap s x) \<and>
            completed_at (heap s' x) = completed_at (heap s x) \<and>
            failed_at (heap s' x) = failed_at (heap s x)"
    and q: "queue s' = queue s"
    and p: "processing s' = processing s"
    and d: "completed s' = completed s"
    and a: "all_requests s' = all_requests s"
    and n: "next_ref s' = next_ref s"
    and k: "queue_is_deque s' = queue_is_deque s"
  shows "wf_state s'"
proof -
  from wf have w: "wf_kinds s" "wf_keys s" "wf_reg s" "wf_cells s"
    by (simp_all add: wf_state_def)
  have ids: "queue_ids s' = queue_ids s" by (simp add: queue_ids_def q h)
  have ents: "queue_entries s' = queue_entries s" by (simp add: queue_entries_def q h)
  have r': "reg s' = reg s" by (simp add: reg_def a)
  have 1: "wf_kinds s'" using w(1) by (simp add: wf_kinds_def a k)
  have 2: "wf_keys s'" using w(2) unfolding wf_keys_def ids r' p d .
  have 3: "wf_reg s'" using w(3) unfolding wf_reg_def r' ents p d n by (simp add: h)
  have 4: "wf_cells s'"
    using w(4) unfolding wf_cells_def q p d
    by (simp add: queued_cell_def running_cell_def terminal_cell_def h)
  from 1 2 3 4 show ?thesis by (simp add: wf_state_def)
qed

lemma wf_after_finish:
  assumes wf: "wf_state s"
    and run: "(rid, r) \<in> set (processing s)"
    and h: "heap s' = (heap s)(r := c)"
    and idc: "request_id c = request_id (heap s r)"
    and tc: "terminal_cell c"
    and q: "queue s' = queue s"
    and p: "processing s' = AList.delete rid (processing s)"
    and d: "completed s' = completed s @ [(rid, r)]"
    and a: "all_requests s' = all_requests s"
    and n: "next_ref s' = next_ref s"
    and k: "queue_is_deque s' = queue_is_deque s"
  shows "wf_state s'"
proof -
  from wf have w: "wf_kinds s" "wf_keys s" "wf_reg s" "wf_cells s"
    by (simp_all add: wf_state_def)
  have rid: "request_id (heap s' x) = request_id (heap s x)" for x
    using h idc by simp
  have ir: "request_id (heap s r) = rid" using wf_refs(2)[OF w(3) run] by simp
  have ids: "queue_ids s' = queue_ids s" by (simp add: queue_ids_def q rid)
  have ents: "queue_entries s' = queue_entries s" by (simp add: queue_entries_def q rid)
  have r': "reg s' = reg s" by (simp add: reg_def a)
  from run have inp: "rid \<in> fst ` set (processing s)" by force
  with w(2) have nq: "rid \<notin> set (queue_ids s)" and nc: "rid \<notin> fst ` set (completed s)"
    unfolding wf_keys_def by auto
  have one: "v = r" if "(rid, v) \<in> set (processing s)" for v
  proof -
    from w(2) have dp: "distinct (map fst (processing s))" by (simp add: wf_keys_def)
    from dp that have "map_of (processing s) rid = Some v" by simp
    moreover from dp run have "map_of (processing s) rid = Some r" by simp
    ultimately show ?thesis by simp
  qed
  have sp: "set (processing s') = set (processing s) - {(rid, r)}"
  proof -
    have "fst x \<noteq> rid \<longleftrightarrow> x \<noteq> (rid, r)" if "x \<in> set (processing s)" for x
      using that one[of "snd x"] by (cases x) auto
    then show ?thesis unfolding p set_delete by blast
  qed
  have other: "heap s' x = heap s x" if "request_id (heap s x) \<noteq> rid" for x
    using that h ir by auto
  have 1: "wf_kinds s'" using w(1) by (simp add: wf_kinds_def a k)
  have 2: "wf_keys s'"
  proof -
    from w(2) have k: "distinct (queue_ids s)" "distinct (map fst (processing s))"
      "distinct (map fst (completed s))" "distinct (map fst (reg s))"
      "set (queue_ids s) \<inter> fst ` set (processing s) = {}"
      "set (queue_ids s) \<inter> fst ` set (completed s) = {}"
      "fst ` set (processing s) \<inter> fst ` set (completed s) = {}"
      by (simp_all add: wf_keys_def)
    have pk: "fst ` set (processing s') \<subseteq> fst ` set (processing s)"
      and nr: "rid \<notin> fst ` set (processing s')"
      unfolding sp using one by force+
    have ck: "fst ` set (completed s') = insert rid (fst ` set (completed s))"
      by (simp add: d)
    have k2: "distinct (map fst (processing s'))"
      using k(2) unfolding p by (rule AList.distinct_delete)
    have k3: "distinct (map fst (completed s'))"
      using k(3) nc by (simp add: d)
    have k5: "set (queue_ids s') \<inter> fst ` set (processing s') = {}"
      using k(5) pk unfolding ids by blast
    have k6: "set (queue_ids s') \<inter> fst ` set (completed s') = {}"
      using k(6) nq unfolding ids ck by blast
    have k7: "fst ` set (processing s') \<inter> fst ` set (completed s') = {}"
      using k(7) pk nr unfolding ck by blast
    from k(1) k2 k3 k(4) k5 k6 k7 show ?thesis
      unfolding wf_keys_def ids r' by blast
  qed
  have 3: "wf_reg s'"
  proof -
    from w(3) have e: "set (reg s) = set (queue_entries s) \<union> set (processing s) \<union> set (completed s)"
      and f: "\<And>k x. (k, x) \<in> set (reg s) \<Longrightarrow> request_id (heap s x) = k \<and> x < next_ref s"
      by (simp_all add: wf_reg_def)
    have "set (reg s') = set (queue_entries s') \<union> set (processing s') \<union> set (completed s')"
      unfolding r' ents sp e using run by (auto simp: d)
    moreover have "request_id (heap s' x) = k \<and> x < next_ref s'" if "(k, x) \<in> set (reg s')" for k x
      using f[of k x] that by (simp add: r' rid n)
    ultimately show ?thesis unfolding wf_reg_def by blast
  qed
  have 4: "wf_cells s'"
  proof -
    have a: "queued_cell (heap s' x)" if "x \<in> set (queue s')" for x
    proof -
      from that have "request_id (heap s x) \<in> set (queue_ids s)"
        by (auto simp: queue_ids_def q)
      with nq have "request_id (heap s x) \<noteq> rid" by auto
      with that w(4) other show ?thesis by (simp add: wf_cells_def q)
    qed
    have b: "running_cell (heap s' x)" if "(k, x) \<in> set (processing s')" for k x
    proof -
      from that have m: "(k, x) \<in> set (processing s)" "k \<noteq> rid"
        unfolding p set_delete by auto
      with wf_refs(2)[OF w(3), of k x] have "request_id (heap s x) \<noteq> rid" by simp
      with m w(4) other show ?thesis by (auto simp: wf_cells_def)
    qed
    have c: "terminal_cell (heap s' x)" if "(k, x) \<in> set (completed s')" for k x
    proof (cases "(k, x) \<in> set (completed s)")
      case True
      with wf_refs(3)[OF w(3), of k x] nc have "request_id (heap s x) \<noteq> rid"
        by force
      with True w(4) other show ?thesis by (auto simp: wf_cells_def)
    next
      case False
      with that have "x = r" by (simp add: d)
      with tc show ?thesis by (simp add: h)
    qed
    from a b c show ?thesis unfolding wf_cells_def by blast
  qed
  from 1 2 3 4 show ?thesis by (simp add: wf_state_def)
qed

lemma wf_after_forget:
  assumes wf: "wf_state s"
    and nq: "rid \<notin> set (queue_ids s)" and np: "rid \<notin> fst ` set (processing s)"
    and h: "heap s' = heap s"
    and q: "queue s' = queue s"
    and p: "processing s' = processing s"
    and d: "completed s' = AList.delete rid (completed s)"
    and a: "all_requests s' = RDict (AList.delete rid (reg s))"
    and n: "next_ref s' = next_ref s"
    and k: "queue_is_deque s' = queue_is_deque s"
  shows "wf_state s'"
proof -
  from wf have w: "wf_kinds s" "wf_keys s" "wf_reg s" "wf_cells s"
    by (simp_all add: wf_state_def)
  have ids: "queue_ids s' = queue_ids s" by (simp add: queue_ids_def q h)
  have ents: "queue_entries s' = queue_entries s" by (simp add: queue_entries_def q h)
  have r': "reg s' = AList.delete rid (reg s)" by (simp add: reg_def a)
  have qe: "fst e \<noteq> rid" if "e \<in> set (queue_entries s)" for e
    using that nq by (auto simp: queue_entries_def queue_ids_def)
  have pe: "fst e \<noteq> rid" if "e \<in> set (processing s)" for e
    using that np by auto
  have 1: "wf_kinds s'" using w(1) by (simp add: wf_kinds_def a k)
  have 2: "wf_keys s'"
  proof -
    from w(2) have k: "distinct (queue_ids s)" "distinct (map fst (processing s))"
      "distinct (map fst (completed s))" "distinct (map fst (reg s))"
      "set (queue_ids s) \<inter> fst ` set (processing s) = {}"
      "set (queue_ids s) \<inter> fst ` set (completed s) = {}"
      "fst ` set (processing s) \<inter> fst ` set (completed s) = {}"
      by (simp_all add: wf_keys_def)
    have ck: "fst ` set (completed s') \<subseteq> fst ` set (completed s)"
      unfolding d set_delete by auto
    have k3: "distinct (map fst (completed s'))"
      using k(3) unfolding d by (rule AList.distinct_delete)
    have k4: "distinct (map fst (reg s'))"
      using k(4) unfolding r' by (rule AList.distinct_delete)
    have k6: "set (queue_ids s') \<inter> fst ` set (completed s') = {}"
      using k(6) ck unfolding ids by blast
    have k7: "fst ` set (processing s') \<inter> fst ` set (completed s') = {}"
      using k(7) ck unfolding p by blast
    from k(1,2,5) k3 k4 k6 k7 show ?thesis
      unfolding wf_keys_def ids p by blast
  qed
  have 3: "wf_reg s'"
  proof -
    have "set (reg s') = set (queue_entries s') \<union> set (processing s') \<union> set (completed s')"
      using w(3) qe pe unfolding wf_reg_def r' ents p d set_delete by auto
    moreover have "set (reg s') \<subseteq> set (reg s)" unfolding r' set_delete by auto
    ultimately show ?thesis using w(3) unfolding wf_reg_def h n by blast
  qed
  have 4: "wf_cells s'"
  proof -
    have "set (completed s') \<subseteq> set (completed s)" unfolding d set_delete by auto
    then show ?thesis using w(4) unfolding wf_cells_def q p h by blast
  qed
  from 1 2 3 4 show ?thesis by (simp add: wf_state_def)
qed


lemma wf_head:
  assumes "wf_state s" "queue s = r # rs"
  shows "map_of (reg s) (request_id (heap s r)) = Some r"
    and "request_id (heap s r) \<notin> fst ` set (processing s)"
proof -
  from assms(1) have w: "wf_keys s" "wf_reg s" by (simp_all add: wf_state_def)
  have "(request_id (heap s r), r) \<in> set (queue_entries s)"
    by (simp add: queue_entries_def assms(2))
  with w(2) have "(request_id (heap s r), r) \<in> set (reg s)" by (simp add: wf_reg_def)
  then show "map_of (reg s) (request_id (heap s r)) = Some r" by (rule wf_lookup[OF w(1)])
  have "request_id (heap s r) \<in> set (queue_ids s)" by (simp add: queue_ids_def assms(2))
  with w(1) show "request_id (heap s r) \<notin> fst ` set (processing s)"
    unfolding wf_keys_def by blast
qed

text \<open>One iteration of the loop of \<open>process_queue\<close>: take the head and start it.\<close>

lemma promote_wf:
  assumes wf: "wf_state s" and hd: "queue s = r # rs"
    and free: "int (length (processing s)) < max_concurrent s"
  shows "wf_state (snd (start_processing now (request_id (heap s r)) (s\<lparr>queue := rs\<rparr>)))"
    and "heap (snd (start_processing now (request_id (heap s r)) (s\<lparr>queue := rs\<rparr>))) =
           (heap s)(r := (heap s r)\<lparr>status := ''processing'', started_at := Some now\<rparr>)"
    and "fst (start_processing now (request_id (heap s r)) (s\<lparr>queue := rs\<rparr>))"
    and "processing (snd (start_processing now (request_id (heap s r)) (s\<lparr>queue := rs\<rparr>))) =
           processing s @ [(request_id (heap s r), r)]"
proof -
  let ?id = "request_id (heap s r)"
  let ?s' = "snd (start_processing now ?id (s\<lparr>queue := rs\<rparr>))"
  from wf obtain d where d: "all_requests s = RDict d"
    by (auto simp: wf_state_def wf_kinds_def)
  then have rd: "reg s = d" by (simp add: reg_def)
  have look: "map_of d ?id = Some r" using wf_head(1)[OF wf hd] rd by simp
  have u: "AList.update ?id r (processing s) = processing s @ [(?id, r)]"
    using wf_head(2)[OF wf hd] by (rule update_fresh)
  from wf have "queued_cell (heap s r)" by (simp add: wf_state_def wf_cells_def hd)
  then have rc: "running_cell ((heap s r)\<lparr>status := ''processing'', started_at := Some now\<rparr>)"
    by (simp add: queued_cell_def running_cell_def)
  show h: "heap ?s' = (heap s)(r := (heap s r)\<lparr>status := ''processing'', started_at := Some now\<rparr>)"
    using free by (simp add: start_processing_def d look)
  show p: "processing ?s' = processing s @ [(?id, r)]"
    using free by (simp add: start_processing_def d look u)
  show "fst (start_processing now ?id (s\<lparr>queue := rs\<rparr>))"
    using free by (simp add: start_processing_def d look)
  show "wf_state ?s'"
    by (rule wf_after_promote[OF wf hd h _ rc _ p])
       (use free in \<open>simp_all add: start_processing_def d look\<close>)
qed

lemma complete_request_wf:
  assumes wf: "wf_state s"
  shows "wf_state (snd (complete_request now rid url s))"
    and "fst (complete_request now rid url s) = Inr ()"
proof -
  have "wf_state (snd (complete_request now rid url s)) \<and>
        fst (complete_request now rid url s) = Inr ()"
  proof (cases "map_of (processing s) rid")
    case None
    with wf show ?thesis by (simp add: complete_request_def)
  next
    case (Some r)
    from wf have w: "wf_keys s" "wf_reg s" "wf_cells s" by (simp_all add: wf_state_def)
    from wf obtain d where d: "all_requests s = RDict d"
      by (auto simp: wf_state_def wf_kinds_def)
    then have rd: "reg s = d" by (simp add: reg_def)
    from Some have m: "(rid, r) \<in> set (processing s)" by (rule map_of_SomeD)
    with w(2) have "(rid, r) \<in> set d" by (simp add: wf_reg_def rd)
    moreover from w(1) have "distinct (map fst d)" by (simp add: wf_keys_def rd)
    ultimately have us: "AList.update rid r d = d" by (rule update_same)
    from m have "rid \<in> fst ` set (processing s)" by (rule image_eqI[rotated]) simp
    moreover from w(1) have "fst ` set (processing s) \<inter> fst ` set (completed s) = {}"
      by (simp add: wf_keys_def)
    ultimately have "rid \<notin> fst ` set (completed s)" by blast
    then have uc: "AList.update rid r (completed s) = completed s @ [(rid, r)]"
      by (rule update_fresh)
    let ?c = "(heap s r)\<lparr>status := ''completed'', completed_at := Some now,
                          result_url := Some url\<rparr>"
    from w(3) m have "running_cell (heap s r)" by (auto simp: wf_cells_def)
    then have tc: "terminal_cell ?c" by (simp add: running_cell_def terminal_cell_def)
    have "wf_state (snd (complete_request now rid url s))"
      by (rule wf_after_finish[OF wf m _ _ tc])
         (simp_all add: complete_request_def Some Let_def d us uc)
    moreover have "fst (complete_request now rid url s) = Inr ()"
      by (simp add: complete_request_def Some Let_def d)
    ultimately show ?thesis by simp
  qed
  then show "wf_state (snd (complete_request now rid url s))"
    and "fst (complete_request now rid url s) = Inr ()" by simp_all
qed

lemma fail_request_wf:
  assumes wf: "wf_state s"
  shows "wf_state (snd (fail_request now rid msg s))"
    and "fst (fail_request now rid msg s) = Inr ()"
proof -
  have "wf_state (snd (fail_request now rid msg s)) \<and>
        fst (fail_request now rid msg s) = Inr ()"
  proof (cases "map_of (processing s) rid")
    case None
    with wf show ?thesis by (simp add: fail_request_def)
  next
    case (Some r)
    from wf have w: "wf_keys s" "wf_reg s" "wf_cells s" by (simp_all add: wf_state_def)
    from wf obtain d where d: "all_requests s = RDict d"
      by (auto simp: wf_state_def wf_kinds_def)
    then have rd: "reg s = d" by (simp add: reg_def)
    from Some have m: "(rid, r) \<in> set (processing s)" by (rule map_of_SomeD)
    with w(2) have "(rid, r) \<in> set d" by (simp add: wf_reg_def rd)
    moreover from w(1) have "distinct (map fst d)" by (simp add: wf_keys_def rd)
    ultimately have us: "AList.update rid r d = d" by (rule update_same)
    from m have "rid \<in> fst ` set (processing s)" by (rule image_eqI[rotated]) simp
    moreover from w(1) have "fst ` set (processing s) \<inter> fst ` set (completed s) = {}"
      by (simp add: wf_keys_def)
    ultimately have "rid \<notin> fst ` set (completed s)" by blast
    then have uc: "AList.update rid r (completed s) = completed s @ [(rid, r)]"
      by (rule update_fresh)
    let ?c = "(heap s r)\<lparr>status := ''failed'', error := Some msg, failed_at := Some now\<rparr>"
    from w(3) m have "running_cell (heap s r)" by (auto simp: wf_cells_def)
    then have tc: "terminal_cell ?c" by (simp add: running_cell_def terminal_cell_def)
    have "wf_state (snd (fail_request now rid msg s))"
      by (rule wf_after_finish[OF wf m _ _ tc])
         (simp_all add: fail_request_def Some Let_def d us uc)
    moreover have "fst (fail_request now rid msg s) = Inr ()"
      by (simp add: fail_request_def Some Let_def d)
    ultimately show ?thesis by simp
  qed
  then show "wf_state (snd (fail_request now rid msg s))"
    and "fst (fail_request now rid msg s) = Inr ()" by simp_all
qed

lemma update_request_status_wf:
  assumes wf: "wf_state s" and al: "allowed (Update t1 t2 rid st msg) s"
  shows "wf_state (update_request_status t1 t2 rid st msg s)"
proof (cases "map_of (reg s) rid")
  case None
  with wf show ?thesis
    by (auto simp: update_request_status_def reg_def split: registry.splits)
next
  case (Some r)
  from wf have w: "wf_keys s" "wf_reg s" by (simp_all add: wf_state_def)
  from wf obtain d where d: "all_requests s = RDict d"
    by (auto simp: wf_state_def wf_kinds_def)
  then have rd: "reg s = d" by (simp add: reg_def)
  from al Some have st: "status (heap s r) = st" by (simp add: record_of_def)
  have same: "p = r" if "map_of (processing s) rid = Some p" for p
  proof -
    from that have "(rid, p) \<in> set (processing s)" by (rule map_of_SomeD)
    with w(2) have "(rid, p) \<in> set (reg s)" by (simp add: wf_reg_def)
    from wf_lookup[OF w(1) this] Some show ?thesis by simp
  qed
  show ?thesis
  proof (rule wf_after_touch[OF wf])
    fix x
    show "request_id (heap (update_request_status t1 t2 rid st msg s) x) = request_id (heap s x) \<and>
          status (heap (update_request_status t1 t2 rid st msg s) x) = status (heap s x) \<and>
          completed_at (heap (update_request_status t1 t2 rid st msg s) x) = completed_at (heap s x) \<and>
          failed_at (heap (update_request_status t1 t2 rid st msg s) x) = failed_at (heap s x)"
      using Some st same
      by (cases "map_of (processing s) rid")
         (auto simp: update_request_status_def d rd Let_def)
  qed (auto simp: update_request_status_def d Let_def split: option.splits)
qed

lemma cleanup_remove_wf:
  assumes "wf_state s"
    and "set rids \<inter> set (queue_ids s) = {}" and "set rids \<inter> fst ` set (processing s) = {}"
  shows "wf_state (snd (cleanup_remove rids s)) \<and> fst (cleanup_remove rids s) = Inr () \<and>
         heap (snd (cleanup_remove rids s)) = heap s \<and>
         queue (snd (cleanup_remove rids s)) = queue s \<and>
         processing (snd (cleanup_remove rids s)) = processing s \<and>
         next_ref (snd (cleanup_remove rids s)) = next_ref s"
  using assms
proof (induction rids arbitrary: s)
  case Nil
  then show ?case by simp
next
  case (Cons rid rids)
  from Cons.prems(1) obtain d where d: "all_requests s = RDict d"
    by (auto simp: wf_state_def wf_kinds_def)
  then have rd: "reg s = d" by (simp add: reg_def)
  let ?s1 = "s\<lparr>completed := AList.delete rid (completed s),
                all_requests := RDict (AList.delete rid d)\<rparr>"
  have w1: "wf_state ?s1"
    by (rule wf_after_forget[OF Cons.prems(1), of rid])
       (use Cons.prems(2,3) in \<open>simp_all add: rd\<close>)
  have q1: "queue_ids ?s1 = queue_ids s" by (simp add: queue_ids_def)
  have "wf_state (snd (cleanup_remove rids ?s1)) \<and> fst (cleanup_remove rids ?s1) = Inr () \<and>
         heap (snd (cleanup_remove rids ?s1)) = heap ?s1 \<and>
         queue (snd (cleanup_remove rids ?s1)) = queue ?s1 \<and>
         processing (snd (cleanup_remove rids ?s1)) = processing ?s1 \<and>
         next_ref (snd (cleanup_remove rids ?s1)) = next_ref ?s1"
    by (rule Cons.IH[OF w1]) (use Cons.prems(2,3) in \<open>simp_all add: q1\<close>)
  then show ?case by (simp add: d Let_def)
qed

lemma to_remove_keys: "set (to_remove cutoff s) \<subseteq> fst ` set (completed s)"
  by (auto simp: to_remove_def)

lemma cleanup_old_requests_wf:
  assumes "wf_state s"
  shows "wf_state (snd (cleanup_old_requests now h s))"
    and "fst (cleanup_old_requests now h s) = Inr ()"
    and "heap (snd (cleanup_old_requests now h s)) = heap s"
    and "queue (snd (cleanup_old_requests now h s)) = queue s"
    and "processing (snd (cleanup_old_requests now h s)) = processing s"
    and "next_ref (snd (cleanup_old_requests now h s)) = next_ref s"
proof -
  let ?rids = "to_remove (now - of_int (h * 3600)) s"
  from assms have w: "wf_keys s" by (simp add: wf_state_def)
  have sub: "set ?rids \<subseteq> fst ` set (completed s)" by (rule to_remove_keys)
  from w have k: "set (queue_ids s) \<inter> fst ` set (completed s) = {}"
    "fst ` set (processing s) \<inter> fst ` set (completed s) = {}"
    by (simp_all add: wf_keys_def)
  have a: "set ?rids \<inter> set (queue_ids s) = {}"
    using sub k(1) by blast
  have b: "set ?rids \<inter> fst ` set (processing s) = {}"
    using sub k(2) by blast
  from cleanup_remove_wf[OF assms a b]
  show "wf_state (snd (cleanup_old_requests now h s))"
    and "fst (cleanup_old_requests now h s) = Inr ()"
    and "heap (snd (cleanup_old_requests now h s)) = heap s"
    and "queue (snd (cleanup_old_requests now h s)) = queue s"
    and "processing (snd (cleanup_old_requests now h s)) = processing s"
    and "next_ref (snd (cleanup_old_requests now h s)) = next_ref s"
    by (simp_all add: cleanup_old_requests_def Let_def)
qed

lemma forward_refl: "forward a a"
  by (simp add: forward_def)

lemma forward_trans: "forward a b \<Longrightarrow> forward b c \<Longrightarrow> forward a c"
  unfolding forward_def by (elim disjE conjE) simp_all

lemma pass_ok_refl: "wf_state s \<Longrightarrow> pass_ok s s"
  by (simp add: pass_ok_def forward_refl same_job_def)

lemma pass_ok_trans:
  assumes "pass_ok s s'" "pass_ok s' s''"
  shows "pass_ok s s''"
proof -
  have a: "forward (status (heap s x)) (status (heap s'' x)) \<and> same_job (heap s'' x) (heap s x) \<and>
          queued_at (heap s'' x) = queued_at (heap s x)" for x
    using assms forward_trans[of "status (heap s x)" "status (heap s' x)" "status (heap s'' x)"]
    by (simp add: pass_ok_def same_job_def)
  have b: "x \<in> set (queue s'') \<or> (request_id (heap s x), x) \<in> set (processing s'')"
    if "x \<in> set (queue s)" for x
  proof -
    from assms(1) that consider "x \<in> set (queue s')"
      | "(request_id (heap s x), x) \<in> set (processing s')"
      unfolding pass_ok_def by blast
    then show ?thesis
    proof cases
      case 1
      moreover from assms(1) have "request_id (heap s' x) = request_id (heap s x)"
        by (simp add: pass_ok_def same_job_def)
      ultimately show ?thesis using assms(2) unfolding pass_ok_def by metis
    next
      case 2
      with assms(2) show ?thesis unfolding pass_ok_def by blast
    qed
  qed
  from assms have c: "wf_state s''" "next_ref s'' = next_ref s"
    "all_requests s'' = all_requests s" "completed s'' = completed s"
    "set (processing s) \<subseteq> set (processing s'')"
    unfolding pass_ok_def by auto
  from a b c show ?thesis unfolding pass_ok_def by blast
qed

lemma promote_pass_ok:
  assumes wf: "wf_state s" and hd: "queue s = r # rs"
    and free: "int (length (processing s)) < max_concurrent s"
  shows "pass_ok s (snd (start_processing now (request_id (heap s r)) (s\<lparr>queue := rs\<rparr>)))"
proof -
  let ?s' = "snd (start_processing now (request_id (heap s r)) (s\<lparr>queue := rs\<rparr>))"
  note p = promote_wf[OF wf hd free, of now]
  from wf have "queued_cell (heap s r)" by (simp add: wf_state_def wf_cells_def hd)
  then have st: "status (heap s r) = ''queued''" by (simp add: queued_cell_def)
  have sh: "shrinks (s\<lparr>queue := rs\<rparr>) ?s'" by (rule start_processing_shrinks)
  have n: "next_ref ?s' = next_ref s" using sh by (simp add: shrinks_def)
  have q: "queue ?s' = rs"
    by (auto simp: start_processing_def split: registry.splits option.splits)
  have a: "all_requests ?s' = all_requests s" "completed ?s' = completed s"
    by (auto simp: start_processing_def split: registry.splits option.splits)
  have h: "forward (status (heap s x)) (status (heap ?s' x)) \<and> same_job (heap ?s' x) (heap s x) \<and>
          queued_at (heap ?s' x) = queued_at (heap s x)" for x
    using st by (simp add: p(2) forward_def same_job_def)
  have m: "x \<in> set (queue ?s') \<or> (request_id (heap s x), x) \<in> set (processing ?s')"
    if "x \<in> set (queue s)" for x
    using that by (auto simp: hd q p(4))
  have sub: "set (processing s) \<subseteq> set (processing ?s')" by (auto simp: p(4))
  from p(1) n a h m sub show ?thesis unfolding pass_ok_def by blast
qed

lemma process_queue_pass_ok:
  "wf_state s \<Longrightarrow> pass_ok s (snd (snd (process_queue clk k s))) \<and>
     fst (process_queue clk k s) = Inr ()"
proof (induction clk k s rule: process_queue.induct)
  case (1 clk k s)
  show ?case
  proof (cases "can_start_processing s")
    case False
    with "1.prems" show ?thesis by (simp add: process_queue.simps pass_ok_refl)
  next
    case True
    then obtain r rs where q: "queue s = r # rs"
      by (cases "queue s") (auto simp: can_start_processing_def)
    from True have free: "int (length (processing s)) < max_concurrent s"
      by (simp add: can_start_processing_def)
    from "1.prems" have d: "queue_is_deque s" by (simp add: wf_state_def wf_kinds_def)
    have g: "get_next_item s = (Inr (Some r), s\<lparr>queue := rs\<rparr>)"
      using q d by (simp add: get_next_item_def)
    let ?s2 = "snd (start_processing (clk k) (request_id (heap (s\<lparr>queue := rs\<rparr>) r))
                      (s\<lparr>queue := rs\<rparr>))"
    have s2: "?s2 = snd (start_processing (clk k) (request_id (heap s r)) (s\<lparr>queue := rs\<rparr>))"
      by simp
    have a: "pass_ok s ?s2" unfolding s2 by (rule promote_pass_ok[OF "1.prems" q free])
    then have w2: "wf_state ?s2" by (simp add: pass_ok_def)
    have ih: "pass_ok ?s2 (snd (snd (process_queue clk (Suc k) ?s2))) \<and>
       fst (process_queue clk (Suc k) ?s2) = Inr ()"
      using "1.IH"(2)[OF True g[symmetric] refl refl w2] .
    have e: "snd (snd (process_queue clk k s)) = snd (snd (process_queue clk (Suc k) ?s2))"
      "fst (process_queue clk k s) = fst (process_queue clk (Suc k) ?s2)"
      using True g by (simp_all add: process_queue.simps[of clk k s] split: prod.splits)
    from pass_ok_trans[OF a] ih e show ?thesis by simp
  qed
qed

lemma complete_request_heap:
  "heap (snd (complete_request now rid url s)) =
     (case map_of (processing s) rid of
        None \<Rightarrow> heap s
      | Some r \<Rightarrow> (heap s)(r := (heap s r)\<lparr>status := ''completed'', completed_at := Some now,
                                         result_url := Some url\<rparr>))"
  by (simp add: complete_request_def Let_def split: option.splits registry.splits)

lemma fail_request_heap:
  "heap (snd (fail_request now rid msg s)) =
     (case map_of (processing s) rid of
        None \<Rightarrow> heap s
      | Some r \<Rightarrow> (heap s)(r := (heap s r)\<lparr>status := ''failed'', error := Some msg,
                                         failed_at := Some now\<rparr>))"
  by (simp add: fail_request_def Let_def split: option.splits registry.splits)

lemma wf_running_status:
  assumes "wf_state s" "map_of (processing s) rid = Some r"
  shows "status (heap s r) = ''processing''"
proof -
  from assms(2) have "(rid, r) \<in> set (processing s)" by (rule map_of_SomeD)
  with assms(1) have "running_cell (heap s r)" by (auto simp: wf_state_def wf_cells_def)
  then show ?thesis by (simp add: running_cell_def)
qed

lemma update_request_status_fields:
  assumes wf: "wf_state s" and al: "allowed (Update t1 t2 rid st msg) s"
  shows "status (heap (update_request_status t1 t2 rid st msg s) x) = status (heap s x) \<and>
         same_job (heap (update_request_status t1 t2 rid st msg s) x) (heap s x) \<and>
         queued_at (heap (update_request_status t1 t2 rid st msg s) x) = queued_at (heap s x)"
proof (cases "map_of (reg s) rid")
  case None
  then show ?thesis
    by (auto simp: update_request_status_def reg_def same_job_def split: registry.splits)
next
  case (Some r)
  from wf have w: "wf_keys s" "wf_reg s" by (simp_all add: wf_state_def)
  from wf obtain d where d: "all_requests s = RDict d"
    by (auto simp: wf_state_def wf_kinds_def)
  then have rd: "reg s = d" by (simp add: reg_def)
  from al Some have st: "status (heap s r) = st" by (simp add: record_of_def)
  have same: "p = r" if "map_of (processing s) rid = Some p" for p
  proof -
    from that have "(rid, p) \<in> set (processing s)" by (rule map_of_SomeD)
    with w(2) have "(rid, p) \<in> set (reg s)" by (simp add: wf_reg_def)
    from wf_lookup[OF w(1) this] Some show ?thesis by simp
  qed
  show ?thesis
    using Some st same
    by (cases "map_of (processing s) rid")
       (auto simp: update_request_status_def d rd Let_def same_job_def)
qed

lemma step_wf: "wf_state s \<Longrightarrow> allowed e s \<Longrightarrow> wf_state (step e s)"
proof (cases e)
  case (Add now it)
  assume "wf_state s" "allowed e s"
  with Add show ?thesis by (simp add: add_to_queue_wf del: allowed.simps)
next
  case (Update t1 t2 rid st msg)
  assume "wf_state s" "allowed e s"
  with Update show ?thesis by (simp add: update_request_status_wf del: allowed.simps)
next
  case (ProcessQueue clk)
  assume "wf_state s" "allowed e s"
  with ProcessQueue process_queue_pass_ok[of s clk 0] show ?thesis by (simp add: pass_ok_def)
qed (simp_all add: complete_request_wf fail_request_wf cleanup_old_requests_wf)

lemma run_wf: "wf_state s \<Longrightarrow> proto evs s \<Longrightarrow> wf_state (run evs s)"
  by (induction evs arbitrary: s) (auto simp: step_wf)

lemma step_forward:
  assumes wf: "wf_state s" and al: "allowed e s" and x: "x < next_ref s"
  shows "forward (status (heap s x)) (status (heap (step e s) x)) \<and>
         next_ref s \<le> next_ref (step e s)"
proof (cases e)
  case (Add now it)
  have "heap (snd (add_to_queue now it s)) x = heap s x"
    using x by (auto simp: add_to_queue_def Let_def split: registry.splits)
  moreover have "next_ref s \<le> next_ref (snd (add_to_queue now it s))"
    by (auto simp: add_to_queue_def Let_def split: registry.splits)
  ultimately show ?thesis using Add by (simp add: forward_refl)
next
  case (Complete now rid url)
  have "next_ref (snd (complete_request now rid url s)) = next_ref s"
    using complete_request_shrinks[of s now rid url] by (simp add: shrinks_def)
  moreover have "forward (status (heap s x)) (status (heap (snd (complete_request now rid url s)) x))"
    using wf_running_status[OF wf, of rid]
    by (auto simp: complete_request_heap forward_def split: option.splits)
  ultimately show ?thesis using Complete by simp
next
  case (Fail now rid msg)
  have "next_ref (snd (fail_request now rid msg s)) = next_ref s"
    using fail_request_shrinks[of s now rid msg] by (simp add: shrinks_def)
  moreover have "forward (status (heap s x)) (status (heap (snd (fail_request now rid msg s)) x))"
    using wf_running_status[OF wf, of rid]
    by (auto simp: fail_request_heap forward_def split: option.splits)
  ultimately show ?thesis using Fail by simp
next
  case (Update t1 t2 rid st msg)
  have "next_ref (update_request_status t1 t2 rid st msg s) = next_ref s"
    using update_request_status_shrinks[of s t1 t2 rid st msg] by (simp add: shrinks_def)
  moreover have "status (heap (update_request_status t1 t2 rid st msg s) x) = status (heap s x)"
    using update_request_status_fields[OF wf, of t1 t2 rid st msg x] al Update by simp
  ultimately show ?thesis using Update by (simp add: forward_refl)
next
  case (Cleanup now h)
  with cleanup_old_requests_wf(3,6)[OF wf, of now h] show ?thesis
    by (simp add: forward_refl)
next
  case (ProcessQueue clk)
  with process_queue_pass_ok[OF wf, of clk 0] show ?thesis by (simp add: pass_ok_def)
next
  case Next
  with al show ?thesis by simp
next
  case (Start now rid)
  with al show ?thesis by simp
next
  case (Remove rid)
  with al show ?thesis by simp
qed

lemma run_forward:
  "wf_state s \<Longrightarrow> proto evs s \<Longrightarrow> x < next_ref s \<Longrightarrow>
     forward (status (heap s x)) (status (heap (run evs s) x))"
proof (induction evs arbitrary: s)
  case Nil
  then show ?case by (simp add: forward_refl)
next
  case (Cons e es)
  from Cons.prems have al: "allowed e s" and pr: "proto es (step e s)" by simp_all
  from step_forward[OF Cons.prems(1) al Cons.prems(3)]
  have a: "forward (status (heap s x)) (status (heap (step e s) x))"
    and b: "x < next_ref (step e s)" using Cons.prems(3) by auto
  have "forward (status (heap (step e s) x)) (status (heap (run es (step e s)) x))"
    using Cons.IH[OF step_wf[OF Cons.prems(1) al] pr b] .
  with a show ?case by (auto intro: forward_trans)
qed

lemma wf_record:
  assumes "wf_state s" "record_of s rid = Some c"
  shows "(rid \<in> set (queue_ids s) \<and> queued_cell c) \<or>
         (rid \<in> fst ` set (processing s) \<and> running_cell c) \<or>
         (rid \<in> fst ` set (completed s) \<and> terminal_cell c)"
proof -
  from assms(1) have w: "wf_keys s" "wf_reg s" "wf_cells s" by (simp_all add: wf_state_def)
  from assms(2) obtain r where r: "map_of (reg s) rid = Some r" "c = heap s r"
    by (auto simp: record_of_def)
  from r(1) have "(rid, r) \<in> set (reg s)" by (rule map_of_SomeD)
  with w(2) consider "(rid, r) \<in> set (queue_entries s)" | "(rid, r) \<in> set (processing s)"
    | "(rid, r) \<in> set (completed s)" unfolding wf_reg_def by blast
  then show ?thesis
  proof cases
    case 1
    then have "r \<in> set (queue s)" "rid \<in> set (queue_ids s)"
      by (auto simp: queue_entries_def queue_ids_def)
    with w(3) r(2) show ?thesis by (simp add: wf_cells_def)
  next
    case 2
    then have "rid \<in> fst ` set (processing s)" by (rule image_eqI[rotated]) simp
    with 2 w(3) r(2) show ?thesis unfolding wf_cells_def by blast
  next
    case 3
    then have "rid \<in> fst ` set (completed s)" by (rule image_eqI[rotated]) simp
    with 3 w(3) r(2) show ?thesis unfolding wf_cells_def by blast
  qed
qed

lemma wf_running_record:
  assumes "wf_state s" "rid \<in> fst ` set (processing s)"
  shows "\<exists>c. record_of s rid = Some c \<and> running_cell c"
proof -
  from assms(1) have w: "wf_keys s" "wf_reg s" "wf_cells s" by (simp_all add: wf_state_def)
  from assms(2) obtain r where r: "(rid, r) \<in> set (processing s)" by auto
  with w(2) have "(rid, r) \<in> set (reg s)" unfolding wf_reg_def by blast
  from wf_lookup[OF w(1) this] have "record_of s rid = Some (heap s r)"
    by (simp add: record_of_def)
  moreover from r w(3) have "running_cell (heap s r)" unfolding wf_cells_def by blast
  ultimately show ?thesis by blast
qed

end
